(* ===== verification/Prelude.thy ===== *)
theory Prelude
  imports Main
begin

text \<open>
  Shared vocabulary of the development: the names of the model's basic types,
  an exception-state monad that stands for the TypeScript \<open>async\<close>/\<open>await\<close>
  code with \<open>throw\<close> (a computation returns \<open>Inl\<close> of the error it threw, or
  \<open>Inr\<close> of its value, together with the state it leaves behind), and lemmas on
  tables stored as lists of rows keyed by their primary key.
\<close>

named_theorems exc_simps "evaluation rules of the exception-state monad"
named_theorems eval_defs "definitions unfolded to evaluate the model on a concrete world"

type_synonym txid = nat
type_synonym schema_name = string

text \<open>demux's \<open>Block\<close>: the header fields the handler and the reader use, and the
  actions, which only the updaters read.\<close>

record block_info =
  blockNumber :: nat
  blockHash :: string
  previousBlockHash :: string

record 'a block =
  blockInfo :: block_info
  actions :: "'a list"

section \<open>Exception-state monad\<close>

type_synonym ('e, 's, 'a) exc = "'s \<Rightarrow> ('e + 'a) \<times> 's"

definition ret :: "'a \<Rightarrow> ('e, 's, 'a) exc" where
  "ret a s = (Inr a, s)"

definition raise :: "'e \<Rightarrow> ('e, 's, 'a) exc" where
  "raise e s = (Inl e, s)"

definition bind_exc :: "('e, 's, 'a) exc \<Rightarrow> ('a \<Rightarrow> ('e, 's, 'b) exc) \<Rightarrow> ('e, 's, 'b) exc" where
  "bind_exc m f s = (case m s of (Inl e, s') \<Rightarrow> (Inl e, s') | (Inr a, s') \<Rightarrow> f a s')"

text \<open>
  A database table is the list of its rows in storage order, each paired with its
  primary key. \<open>del_key\<close> is \<open>DELETE ... WHERE pk = k\<close>, \<open>set_key\<close> is
  \<open>UPDATE ... WHERE pk = k\<close>: both touch every row with that key, as SQL does.
\<close>

definition del_key :: "'k \<Rightarrow> ('k \<times> 'r) list \<Rightarrow> ('k \<times> 'r) list" where
  "del_key k xs = filter (\<lambda>r. fst r \<noteq> k) xs"

definition set_key :: "'k \<Rightarrow> 'r \<Rightarrow> ('k \<times> 'r) list \<Rightarrow> ('k \<times> 'r) list" where
  "set_key k v xs = map (\<lambda>r. if fst r = k then (k, v) else r) xs"

declare bind_exc_def [eval_defs]
  Let_def [eval_defs]

section \<open>Lemmas: the monad\<close>

lemma ret_apply [simp, exc_simps]: "ret a s = (Inr a, s)"
  by (simp add: ret_def)

lemma raise_apply [simp, exc_simps]: "raise e s = (Inl e, s)"
  by (simp add: raise_def)

lemma bind_exc_Inr [exc_simps]: "m s = (Inr a, s') \<Longrightarrow> bind_exc m f s = f a s'"
  by (simp add: bind_exc_def)

lemma bind_exc_Inl [exc_simps]: "m s = (Inl e, s') \<Longrightarrow> bind_exc m f s = (Inl e, s')"
  by (simp add: bind_exc_def)

lemma bind_exc_ret [simp]: "bind_exc (ret a) f = f a"
  by (simp add: bind_exc_def fun_eq_iff)

lemma bind_exc_raise [simp]: "bind_exc (raise e) f = raise e"
  by (simp add: bind_exc_def fun_eq_iff)

lemma bind_exc_Inr_iff:
  "bind_exc m f s = (Inr b, s'') \<longleftrightarrow> (\<exists>a s'. m s = (Inr a, s') \<and> f a s' = (Inr b, s''))"
  by (auto simp: bind_exc_def split: prod.splits sum.splits)

lemma bind_exc_Inl_iff:
  "bind_exc m f s = (Inl e, s'') \<longleftrightarrow>
     m s = (Inl e, s'') \<or> (\<exists>a s'. m s = (Inr a, s') \<and> f a s' = (Inl e, s''))"
  by (auto simp: bind_exc_def split: prod.splits sum.splits)

text \<open>A property of the state kept by both halves of a bind is kept by the bind,
  whatever the outcome.\<close>

lemma bind_exc_inv:
  assumes "\<And>s r s'. P s \<Longrightarrow> m s = (r, s') \<Longrightarrow> P s'"
    and "\<And>a s r s'. P s \<Longrightarrow> f a s = (r, s') \<Longrightarrow> P s'"
  shows "P s \<Longrightarrow> bind_exc m f s = (r, s') \<Longrightarrow> P s'"
proof -
  assume p: "P s" and b: "bind_exc m f s = (r, s')"
  obtain x s1 where m: "m s = (x, s1)" by fastforce
  from assms(1) [OF p m] have p1: "P s1" .
  show "P s'"
  proof (cases x)
    case (Inl e)
    with b m have "s' = s1" by (simp add: bind_exc_def)
    with p1 show ?thesis by simp
  next
    case (Inr a)
    with b m have "f a s1 = (r, s')" by (simp add: bind_exc_def)
    from assms(2) [OF p1 this] show ?thesis .
  qed
qed

section \<open>Maps\<close>

text \<open>Function packages state a map update of a recursive call as a \<open>\<lambda>\<close>-term;
  this folds it back into \<open>fun_upd\<close>.\<close>

lemma fun_upd_lambda [simp]: "(\<lambda>a. if a = k then v else m a) = m(k := v)"
  by (simp add: fun_eq_iff)

section \<open>Lemmas: tables as lists of keyed rows\<close>

lemma del_key_Nil [simp]: "del_key k [] = []"
  by (simp add: del_key_def)

lemma del_key_Cons [simp]:
  "del_key k (r # xs) = (if fst r = k then del_key k xs else r # del_key k xs)"
  by (simp add: del_key_def)

lemma set_key_Nil [simp]: "set_key k v [] = []"
  by (simp add: set_key_def)

lemma set_key_Cons [simp]:
  "set_key k v (r # xs) = (if fst r = k then (k, v) else r) # set_key k v xs"
  by (simp add: set_key_def)

lemma del_key_absent: "k \<notin> set (map fst xs) \<Longrightarrow> del_key k xs = xs"
  by (induction xs) auto

lemma set_key_absent: "k \<notin> set (map fst xs) \<Longrightarrow> set_key k v xs = xs"
  by (induction xs) auto

lemma del_key_snoc: "k \<notin> set (map fst xs) \<Longrightarrow> del_key k (xs @ [(k, v)]) = xs"
  by (induction xs) auto

lemma map_of_snoc_fresh:
  "k \<notin> set (map fst xs) \<Longrightarrow> map_of (xs @ [(k, v)]) = (map_of xs)(k \<mapsto> v)"
  by (induction xs) (auto simp: fun_eq_iff)

lemma keys_set_key [simp]: "map fst (set_key k v xs) = map fst xs"
  by (induction xs) auto

lemma keys_del_key: "map fst (del_key k xs) = filter (\<lambda>x. x \<noteq> k) (map fst xs)"
  by (induction xs) auto

lemma distinct_keys_del_key: "distinct (map fst xs) \<Longrightarrow> distinct (map fst (del_key k xs))"
  by (simp add: keys_del_key)

lemma map_of_set_key [simp]: "map_of (set_key k v xs) = (if k \<in> set (map fst xs) then (map_of xs)(k \<mapsto> v) else map_of xs)"
  by (induction xs) (auto simp: fun_eq_iff)

lemma set_key_restore:
  "distinct (map fst xs) \<Longrightarrow> map_of xs k = Some old \<Longrightarrow> set_key k old (set_key k new xs) = xs"
proof (induction xs)
  case Nil
  then show ?case by simp
next
  case (Cons r xs)
  show ?case
  proof (cases "fst r = k")
    case True
    with Cons.prems have "k \<notin> set (map fst xs)" and "snd r = old" by auto
    with True show ?thesis by (cases r) (simp add: set_key_absent)
  next
    case False
    with Cons show ?thesis by auto
  qed
qed

section \<open>Lemmas: sorting by key\<close>

lemma insort_key_snoc_max:
  "f y < f x \<Longrightarrow> insort_key f y (zs @ [x]) = insort_key f y zs @ [x]"
  by (induction zs) auto

lemma sort_key_snoc_max:
  "\<forall>y \<in> set ys. f y < f x \<Longrightarrow> sort_key f (ys @ [x]) = sort_key f ys @ [x]"
  by (induction ys) (auto simp: insort_key_snoc_max)

end
