(* ===== verification/Database.thy ===== *)
theory Database
  imports Prelude
begin

text \<open>
  The datastore the handler of \<open>src/src/MassiveActionHandler.ts\<close> acts on: a
  Postgres database reached through MassiveJS, with the cyanaudit extension
  recording every row change under the identifier of the transaction that made it.
  Neither library is code of this repository; this theory models the part of them the
  handler relies on, from the spec (sections 3 and 6) and the class comment (lines 3-7):
  \<^item> a schema holds the tables \<open>_index_state\<close> (rows keyed by a serial \<open>id\<close>),
    \<open>_block_number_txid\<close> (keyed by \<open>block_number\<close>) and the handler's own rows;
  \<^item> every write goes through \<open>log_write\<close>, which applies one row change and appends
    it to the audit log tagged with the writing transaction's identifier;
  \<^item> \<open>txid_current()\<close> and serial sequences are not transactional: an aborted
    transaction still consumes its identifier and the sequence values it drew.
\<close>

section \<open>Rows, tables, changes\<close>

text \<open>A row of \<open>_index_state\<close> without its \<open>id\<close> (the columns the handler writes).\<close>

record index_state_row =
  block_number :: nat
  block_hash :: string
  is_replay :: bool
  handler_version_name :: string

text \<open>The tables of one schema, \<open>'k\<close> and \<open>'v\<close> being the keys and values of the
  rows the handler's updaters maintain.\<close>

record ('k, 'v) tables =
  index_state :: "(nat \<times> index_state_row) list"
  block_number_txid :: "(nat \<times> txid) list"
  rows :: "'k \<rightharpoonup> 'v"

text \<open>One row change as cyanaudit records it: the operation, the key, and the old and new
  values of the row.\<close>

datatype ('k, 'v) change =
    IndexStateInsert nat index_state_row
  | IndexStateUpdate nat index_state_row index_state_row
  | IndexStateDelete nat index_state_row
  | BlockTxidInsert nat txid
  | BlockTxidDelete nat txid
  | RowWrite 'k "'v option" "'v option"

datatype error =
    ApplicationError string
  | UniqueViolation string nat
  | UndefinedSchema schema_name

datatype log_line = RollingBack nat | RollbackComplete

text \<open>The world the handler acts on: the schemas of the database, the cyanaudit log,
  the counter behind \<open>txid_current()\<close>, the last value of each schema's
  \<open>_index_state_id_seq\<close>, and what the process printed.\<close>

record ('k, 'v) world =
  schemas :: "schema_name \<rightharpoonup> ('k, 'v) tables"
  audit_log :: "(txid \<times> schema_name \<times> ('k, 'v) change) list"
  next_txid :: txid
  id_seq :: "schema_name \<Rightarrow> nat"
  console :: "log_line list"

type_synonym ('k, 'v, 'a) op = "(error, ('k, 'v) world, 'a) exc"

text \<open>A MassiveJS transaction handle scoped to one schema: the transaction it writes in
  and the schema whose tables it exposes.\<close>

type_synonym tx_handle = "txid \<times> schema_name"

section \<open>Applying and inverting a change\<close>

fun apply_change :: "('k, 'v) change \<Rightarrow> ('k, 'v) tables \<Rightarrow> error + ('k, 'v) tables" where
  "apply_change (IndexStateInsert i r) tb =
     (if i \<in> set (map fst (index_state tb)) then Inl (UniqueViolation ''_index_state'' i)
      else Inr (tb\<lparr>index_state := index_state tb @ [(i, r)]\<rparr>))"
| "apply_change (IndexStateUpdate i old new) tb =
     Inr (tb\<lparr>index_state := set_key i new (index_state tb)\<rparr>)"
| "apply_change (IndexStateDelete i old) tb =
     Inr (tb\<lparr>index_state := del_key i (index_state tb)\<rparr>)"
| "apply_change (BlockTxidInsert b t) tb =
     (if b \<in> set (map fst (block_number_txid tb)) then Inl (UniqueViolation ''_block_number_txid'' b)
      else Inr (tb\<lparr>block_number_txid := block_number_txid tb @ [(b, t)]\<rparr>))"
| "apply_change (BlockTxidDelete b t) tb =
     Inr (tb\<lparr>block_number_txid := del_key b (block_number_txid tb)\<rparr>)"
| "apply_change (RowWrite k old new) tb = Inr (tb\<lparr>rows := (rows tb)(k := new)\<rparr>)"

text \<open>The statement cyanaudit's undo issues for a recorded change.\<close>

fun invert :: "('k, 'v) change \<Rightarrow> ('k, 'v) change" where
  "invert (IndexStateInsert i r) = IndexStateDelete i r"
| "invert (IndexStateUpdate i old new) = IndexStateUpdate i new old"
| "invert (IndexStateDelete i r) = IndexStateInsert i r"
| "invert (BlockTxidInsert b t) = BlockTxidDelete b t"
| "invert (BlockTxidDelete b t) = BlockTxidInsert b t"
| "invert (RowWrite k old new) = RowWrite k new old"

text \<open>A change is faithful to the table it was applied to when its recorded old value
  is what the table held. A recorded delete is not undone exactly (the row comes back at
  the end of the table), so no forward write of the model deletes.\<close>

fun faithful :: "('k, 'v) change \<Rightarrow> ('k, 'v) tables \<Rightarrow> bool" where
  "faithful (IndexStateInsert i r) tb = (i \<notin> set (map fst (index_state tb)))"
| "faithful (IndexStateUpdate i old new) tb = (map_of (index_state tb) i = Some old)"
| "faithful (IndexStateDelete i r) tb = False"
| "faithful (BlockTxidInsert b t) tb = (b \<notin> set (map fst (block_number_txid tb)))"
| "faithful (BlockTxidDelete b t) tb = False"
| "faithful (RowWrite k old new) tb = (rows tb k = old)"

definition wf_tables :: "('k, 'v) tables \<Rightarrow> bool" where
  "wf_tables tb \<longleftrightarrow> distinct (map fst (index_state tb)) \<and> distinct (map fst (block_number_txid tb))"

definition wf_schemas :: "(schema_name \<rightharpoonup> ('k, 'v) tables) \<Rightarrow> bool" where
  "wf_schemas S \<longleftrightarrow> (\<forall>s tb. S s = Some tb \<longrightarrow> wf_tables tb)"

definition tag :: "txid \<Rightarrow> (schema_name \<times> ('k, 'v) change) list \<Rightarrow> (txid \<times> schema_name \<times> ('k, 'v) change) list" where
  "tag t cs = map (\<lambda>(s, c). (t, s, c)) cs"

fun apply_changes ::
  "(schema_name \<times> ('k, 'v) change) list \<Rightarrow> (schema_name \<rightharpoonup> ('k, 'v) tables)
     \<Rightarrow> error + (schema_name \<rightharpoonup> ('k, 'v) tables)" where
  "apply_changes [] S = Inr S"
| "apply_changes ((s, c) # cs) S =
     (case S s of
        None \<Rightarrow> Inl (UndefinedSchema s)
      | Some tb \<Rightarrow> (case apply_change c tb of
          Inl e \<Rightarrow> Inl e
        | Inr tb' \<Rightarrow> apply_changes cs (S(s \<mapsto> tb'))))"

fun logged_run :: "(schema_name \<times> ('k, 'v) change) list \<Rightarrow> (schema_name \<rightharpoonup> ('k, 'v) tables) \<Rightarrow> bool" where
  "logged_run [] S = True"
| "logged_run ((s, c) # cs) S =
     (case S s of
        None \<Rightarrow> False
      | Some tb \<Rightarrow> faithful c tb \<and> (case apply_change c tb of
          Inl e \<Rightarrow> False
        | Inr tb' \<Rightarrow> logged_run cs (S(s \<mapsto> tb'))))"

section \<open>Logged writes and the transaction provider\<close>

definition log_write :: "txid \<Rightarrow> schema_name \<Rightarrow> ('k, 'v) change \<Rightarrow> ('k, 'v, unit) op" where
  "log_write t s c w =
     (case schemas w s of
        None \<Rightarrow> (Inl (UndefinedSchema s), w)
      | Some tb \<Rightarrow> (case apply_change c tb of
          Inl e \<Rightarrow> (Inl e, w)
        | Inr tb' \<Rightarrow> (Inr (), w\<lparr>schemas := (schemas w)(s \<mapsto> tb'),
                               audit_log := audit_log w @ [(t, s, c)]\<rparr>)))"

fun log_writes :: "txid \<Rightarrow> (schema_name \<times> ('k, 'v) change) list \<Rightarrow> ('k, 'v, unit) op" where
  "log_writes t [] = ret ()"
| "log_writes t ((s, c) # cs) = bind_exc (log_write t s c) (\<lambda>_. log_writes t cs)"

text \<open>The state an aborted transaction leaves: the tables and the audit log as they were
  before it began, the non-transactional counters and the output as they are now.\<close>

definition abort_tx :: "('k, 'v) world \<Rightarrow> ('k, 'v) world \<Rightarrow> ('k, 'v) world" where
  "abort_tx w_begin w_end =
     w_begin\<lparr>next_txid := next_txid w_end, id_seq := id_seq w_end, console := console w_end\<rparr>"

text \<open>MassiveJS's \<open>withTransaction\<close>: begin, let the body read its identifier
  (\<open>select txid_current()\<close>) and run, commit on success, roll back and re-throw on
  error.\<close>

definition with_transaction :: "(txid \<Rightarrow> ('k, 'v, unit) op) \<Rightarrow> ('k, 'v, unit) op" where
  "with_transaction body w =
     (let t = next_txid w;
          w1 = w\<lparr>next_txid := Suc t\<rparr>;
          (r, w2) = body t w1
      in case r of Inl e \<Rightarrow> (Inl e, abort_tx w w2) | Inr u \<Rightarrow> (Inr u, w2))"

section \<open>Table access through MassiveJS\<close>

text \<open>Reading a schema's tables through the handle: a property of an undefined schema
  object is a \<open>TypeError\<close>, modelled as \<open>UndefinedSchema\<close>.\<close>

definition tables_of :: "schema_name \<Rightarrow> ('k, 'v, ('k, 'v) tables) op" where
  "tables_of s w = (case schemas w s of None \<Rightarrow> (Inl (UndefinedSchema s), w) | Some tb \<Rightarrow> (Inr tb, w))"

text \<open>\<open>_index_state.findOne({id: i})\<close>: the row with that id, or \<open>null\<close>.\<close>

definition findOne_index_state :: "schema_name \<Rightarrow> nat \<Rightarrow> ('k, 'v, (nat \<times> index_state_row) option) op" where
  "findOne_index_state s i =
     bind_exc (tables_of s) (\<lambda>tb. ret (map_option (\<lambda>r. (i, r)) (map_of (index_state tb) i)))"

text \<open>\<open>nextval('_index_state_id_seq')\<close>, the default of the serial \<open>id\<close>.\<close>

definition nextval_index_state_id :: "schema_name \<Rightarrow> ('k, 'v, nat) op" where
  "nextval_index_state_id s w =
     (Inr (Suc (id_seq w s)), w\<lparr>id_seq := (id_seq w)(s := Suc (id_seq w s))\<rparr>)"

text \<open>\<open>_index_state.save(row)\<close>: an \<open>UPDATE\<close> when the object carries its primary key,
  an \<open>INSERT\<close> with a fresh serial id when it does not.\<close>

definition save_index_state ::
  "txid \<Rightarrow> schema_name \<Rightarrow> nat option \<Rightarrow> index_state_row \<Rightarrow> ('k, 'v, unit) op" where
  "save_index_state t s oid r =
     (case oid of
        Some i \<Rightarrow> bind_exc (tables_of s) (\<lambda>tb.
          (case map_of (index_state tb) i of
             None \<Rightarrow> ret ()
           | Some old \<Rightarrow> log_write t s (IndexStateUpdate i old r)))
      | None \<Rightarrow> bind_exc (nextval_index_state_id s) (\<lambda>i. log_write t s (IndexStateInsert i r)))"

definition insert_block_number_txid :: "txid \<Rightarrow> schema_name \<Rightarrow> nat \<Rightarrow> txid \<Rightarrow> ('k, 'v, unit) op" where
  "insert_block_number_txid t s b x = log_write t s (BlockTxidInsert b x)"

text \<open>\<open>_block_number_txid.where("block_number > $1", [n], {order: block_number desc})\<close>.\<close>

definition rows_above_desc :: "nat \<Rightarrow> (nat \<times> txid) list \<Rightarrow> (nat \<times> txid) list" where
  "rows_above_desc n xs = rev (sort_key fst (filter (\<lambda>r. n < fst r) xs))"

definition where_block_number_gt :: "schema_name \<Rightarrow> nat \<Rightarrow> ('k, 'v, (nat \<times> txid) list) op" where
  "where_block_number_gt s n =
     bind_exc (tables_of s) (\<lambda>tb. ret (rows_above_desc n (block_number_txid tb)))"

text \<open>A write of one of the handler's rows through the transaction handle.\<close>

definition write_row :: "txid \<Rightarrow> schema_name \<Rightarrow> 'k \<Rightarrow> 'v option \<Rightarrow> ('k, 'v, unit) op" where
  "write_row t s k v = bind_exc (tables_of s) (\<lambda>tb. log_write t s (RowWrite k (rows tb k) v))"

fun write_rows :: "txid \<Rightarrow> schema_name \<Rightarrow> ('k \<times> 'v option) list \<Rightarrow> ('k, 'v, unit) op" where
  "write_rows t s [] = ret ()"
| "write_rows t s ((k, v) # ws) = bind_exc (write_row t s k v) (\<lambda>_. write_rows t s ws)"

text \<open>\<open>console.info(line)\<close>.\<close>

definition console_info :: "log_line \<Rightarrow> ('k, 'v, unit) op" where
  "console_info l w = (Inr (), w\<lparr>console := console w @ [l]\<rparr>)"

section \<open>cyanaudit's undo\<close>

text \<open>The changes recorded for one transaction, in the order they were made.\<close>

definition txn_changes :: "txid \<Rightarrow> (txid \<times> schema_name \<times> ('k, 'v) change) list
                             \<Rightarrow> (schema_name \<times> ('k, 'v) change) list" where
  "txn_changes t log = map snd (filter (\<lambda>e. fst e = t) log)"

definition inverse_changes :: "(schema_name \<times> ('k, 'v) change) list \<Rightarrow> (schema_name \<times> ('k, 'v) change) list" where
  "inverse_changes cs = map (\<lambda>(s, c). (s, invert c)) (rev cs)"

text \<open>\<open>cyanaudit.fn_undo_transaction(txid)\<close>: in a transaction of its own, issue the
  inverse of every change recorded for \<open>txid\<close>, last change first; the inverse
  statements are audited like any other write.\<close>

definition fn_undo_transaction :: "txid \<Rightarrow> ('k, 'v, unit) op" where
  "fn_undo_transaction t w =
     with_transaction (\<lambda>u. log_writes u (inverse_changes (txn_changes t (audit_log w)))) w"

section \<open>Invariant and effect of a transaction body\<close>

text \<open>The world invariant: primary keys are unique in every table, and every recorded
  transaction identifier was handed out before the current one.\<close>

definition wf_world :: "('k, 'v) world \<Rightarrow> bool" where
  "wf_world w \<longleftrightarrow> wf_schemas (schemas w) \<and> (\<forall>e \<in> set (audit_log w). fst e < next_txid w)"

text \<open>What a successful step of a transaction body \<open>t\<close> on schema \<open>s\<close> did: a faithful
  run of changes of that schema, each applied and recorded under \<open>t\<close>; the identifier
  counter and the output untouched (sequences may advance).\<close>

definition eff :: "txid \<Rightarrow> schema_name \<Rightarrow> ('k, 'v) world \<Rightarrow> ('k, 'v) world \<Rightarrow> bool" where
  "eff t s w w' \<longleftrightarrow>
     (\<exists>cs. logged_run cs (schemas w) \<and> apply_changes cs (schemas w) = Inr (schemas w')
        \<and> audit_log w' = audit_log w @ tag t cs \<and> list_all (\<lambda>sc. fst sc = s) cs)
     \<and> next_txid w' = next_txid w \<and> console w' = console w"

text \<open>The two bookkeeping tables of a schema, as a pair.\<close>

definition bookkeeping :: "('k, 'v) tables \<Rightarrow> (nat \<times> index_state_row) list \<times> (nat \<times> txid) list" where
  "bookkeeping tb = (index_state tb, block_number_txid tb)"

declare log_write_def [eval_defs]
  abort_tx_def [eval_defs]
  with_transaction_def [eval_defs]
  tables_of_def [eval_defs]
  findOne_index_state_def [eval_defs]
  nextval_index_state_id_def [eval_defs]
  save_index_state_def [eval_defs]
  insert_block_number_txid_def [eval_defs]
  rows_above_desc_def [eval_defs]
  where_block_number_gt_def [eval_defs]
  write_row_def [eval_defs]
  console_info_def [eval_defs]
  txn_changes_def [eval_defs]
  inverse_changes_def [eval_defs]
  fn_undo_transaction_def [eval_defs]
  tag_def [eval_defs]
  wf_world_def [eval_defs]
  wf_schemas_def [eval_defs]
  wf_tables_def [eval_defs]

section \<open>Lemmas: changes and their inverses\<close>

lemma tag_simps [simp]: "tag t [] = []" "tag t ((s, c) # cs) = (t, s, c) # tag t cs"
  "tag t (xs @ ys) = tag t xs @ tag t ys"
  by (simp_all add: tag_def)

lemma apply_change_wf:
  "apply_change c tb = Inr tb' \<Longrightarrow> wf_tables tb \<Longrightarrow> wf_tables tb'"
  by (cases c) (auto simp: wf_tables_def distinct_keys_del_key split: if_splits)

lemma apply_change_invert:
  assumes "apply_change c tb = Inr tb'" "faithful c tb" "wf_tables tb"
  shows "apply_change (invert c) tb' = Inr tb"
  using assms
  by (cases c) (auto simp: wf_tables_def del_key_snoc set_key_restore split: if_splits)

lemma apply_changes_append:
  "apply_changes (xs @ ys) S = (case apply_changes xs S of Inl e \<Rightarrow> Inl e | Inr S' \<Rightarrow> apply_changes ys S')"
proof (induction xs arbitrary: S)
  case Nil
  then show ?case by simp
next
  case (Cons sc xs)
  obtain s c where sc: "sc = (s, c)" by fastforce
  show ?case
  proof (cases "S s")
    case None
    then show ?thesis by (simp add: sc)
  next
    case (Some tb)
    then show ?thesis using Cons.IH by (cases "apply_change c tb") (simp_all add: sc)
  qed
qed

lemma apply_changes_wf:
  "apply_changes cs S = Inr S' \<Longrightarrow> wf_schemas S \<Longrightarrow> wf_schemas S'"
proof (induction cs arbitrary: S)
  case Nil
  then show ?case by simp
next
  case (Cons sc cs)
  obtain s c where sc: "sc = (s, c)" by fastforce
  with Cons.prems obtain tb tb' where tb: "S s = Some tb" "apply_change c tb = Inr tb'"
    and rest: "apply_changes cs (S(s \<mapsto> tb')) = Inr S'"
    by (auto split: option.splits sum.splits)
  from tb Cons.prems(2) have "wf_schemas (S(s \<mapsto> tb'))"
    by (auto simp: wf_schemas_def intro: apply_change_wf)
  with rest show ?case by (rule Cons.IH)
qed

lemma logged_run_apply:
  "logged_run cs S \<Longrightarrow> \<exists>S'. apply_changes cs S = Inr S'"
proof (induction cs arbitrary: S)
  case Nil
  then show ?case by simp
next
  case (Cons sc cs)
  then show ?case by (cases sc) (auto split: option.splits sum.splits)
qed

lemma logged_run_append:
  "logged_run xs S \<Longrightarrow> apply_changes xs S = Inr S' \<Longrightarrow> logged_run ys S' \<Longrightarrow> logged_run (xs @ ys) S"
proof (induction xs arbitrary: S)
  case Nil
  then show ?case by simp
next
  case (Cons sc xs)
  then show ?case by (cases sc) (auto split: option.splits sum.splits)
qed

lemma inverse_changes_simps [simp]:
  "inverse_changes [] = []"
  "inverse_changes ((s, c) # cs) = inverse_changes cs @ [(s, invert c)]"
  by (simp_all add: inverse_changes_def)

text \<open>Undoing a faithful run of changes, last change first, gives back the tables the run
  started from.\<close>

lemma apply_inverse_changes:
  "wf_schemas S \<Longrightarrow> logged_run cs S \<Longrightarrow> apply_changes cs S = Inr S'
     \<Longrightarrow> apply_changes (inverse_changes cs) S' = Inr S"
proof (induction cs arbitrary: S)
  case Nil
  then show ?case by simp
next
  case (Cons sc cs)
  obtain s c where sc: "sc = (s, c)" by fastforce
  with Cons.prems obtain tb tb' where tb: "S s = Some tb" "apply_change c tb = Inr tb'" "faithful c tb"
    and run: "logged_run cs (S(s \<mapsto> tb'))" and rest: "apply_changes cs (S(s \<mapsto> tb')) = Inr S'"
    by (auto split: option.splits sum.splits)
  from tb Cons.prems(1) have wf1: "wf_schemas (S(s \<mapsto> tb'))" and wft: "wf_tables tb"
    by (auto simp: wf_schemas_def intro: apply_change_wf)
  from wf1 run rest have undo: "apply_changes (inverse_changes cs) S' = Inr (S(s \<mapsto> tb'))"
    by (rule Cons.IH)
  from tb wft have "apply_change (invert c) tb' = Inr tb" by (intro apply_change_invert)
  with undo tb(1) show ?case by (simp add: sc apply_changes_append map_upd_triv)
qed

text \<open>Changes that all touch one schema act on that schema alone: run from any other map
  of schemas that holds the same tables there, they give the same result there and leave
  the rest alone.\<close>

lemma apply_changes_local:
  "apply_changes cs S = Inr S' \<Longrightarrow> list_all (\<lambda>sc. fst sc = s) cs \<Longrightarrow> S2 s = S s
     \<Longrightarrow> apply_changes cs S2 = Inr (S2(s := S' s))"
proof (induction cs arbitrary: S S2)
  case Nil
  then show ?case by (simp add: fun_upd_idem)
next
  case (Cons sc cs)
  obtain s0 c where sc: "sc = (s0, c)" by fastforce
  with Cons.prems obtain tb tb' where s0: "s0 = s" and tb: "S s = Some tb" "apply_change c tb = Inr tb'"
    and rest: "apply_changes cs (S(s \<mapsto> tb')) = Inr S'" and all: "list_all (\<lambda>sc. fst sc = s) cs"
    by (auto split: option.splits sum.splits)
  have "apply_changes cs (S2(s \<mapsto> tb')) = Inr ((S2(s \<mapsto> tb'))(s := S' s))"
    by (rule Cons.IH [OF rest all]) simp
  with tb Cons.prems(3) show ?case by (simp add: sc s0)
qed

lemma list_all_inverse_changes [simp]:
  "list_all (\<lambda>sc. fst sc = s) (inverse_changes cs) = list_all (\<lambda>sc. fst sc = s) cs"
  by (induction cs) auto

lemma apply_inverse_changes_local:
  assumes "wf_schemas S" "logged_run cs S" "apply_changes cs S = Inr S'"
    and "list_all (\<lambda>sc. fst sc = s) cs" "S2 s = S' s"
  shows "apply_changes (inverse_changes cs) S2 = Inr (S2(s := S s))"
proof -
  from assms(1-3) have "apply_changes (inverse_changes cs) S' = Inr S" by (rule apply_inverse_changes)
  moreover from assms(4) have "list_all (\<lambda>sc. fst sc = s) (inverse_changes cs)" by simp
  ultimately show ?thesis using assms(5) by (rule apply_changes_local)
qed

section \<open>Lemmas: logged writes, transactions, undo\<close>

lemma log_writes_Inr:
  "apply_changes cs (schemas w) = Inr S'
     \<Longrightarrow> log_writes t cs w = (Inr (), w\<lparr>schemas := S', audit_log := audit_log w @ tag t cs\<rparr>)"
proof (induction cs arbitrary: w)
  case Nil
  then show ?case by simp
next
  case (Cons sc cs)
  obtain s c where sc: "sc = (s, c)" by fastforce
  with Cons.prems obtain tb tb' where tb: "schemas w s = Some tb" "apply_change c tb = Inr tb'"
    and rest: "apply_changes cs ((schemas w)(s \<mapsto> tb')) = Inr S'"
    by (auto split: option.splits sum.splits)
  let ?w1 = "w\<lparr>schemas := (schemas w)(s \<mapsto> tb'), audit_log := audit_log w @ [(t, s, c)]\<rparr>"
  from tb have "log_write t s c w = (Inr (), ?w1)" by (simp add: log_write_def)
  moreover have "log_writes t cs ?w1 = (Inr (), ?w1\<lparr>schemas := S', audit_log := audit_log ?w1 @ tag t cs\<rparr>)"
    using rest by (intro Cons.IH) simp
  ultimately show ?case by (simp add: sc bind_exc_Inr)
qed

lemma with_transaction_Inl:
  "with_transaction body w = (Inl e, w') \<Longrightarrow> schemas w' = schemas w \<and> audit_log w' = audit_log w"
  by (auto simp: with_transaction_def abort_tx_def Let_def split: prod.splits sum.splits)

lemma with_transaction_Inr:
  "body (next_txid w) (w\<lparr>next_txid := Suc (next_txid w)\<rparr>) = (Inr u, w2)
     \<Longrightarrow> with_transaction body w = (Inr u, w2)"
  by (simp add: with_transaction_def)

lemma with_transaction_Inr_iff:
  "with_transaction body w = (Inr u, w2) \<longleftrightarrow>
     body (next_txid w) (w\<lparr>next_txid := Suc (next_txid w)\<rparr>) = (Inr u, w2)"
  by (auto simp: with_transaction_def Let_def split: prod.splits sum.splits)

lemma txn_changes_append [simp]:
  "txn_changes t (xs @ ys) = txn_changes t xs @ txn_changes t ys"
  by (simp add: txn_changes_def)

lemma txn_changes_tag [simp]:
  "txn_changes t (tag u cs) = (if t = u then cs else [])"
  by (induction cs) (auto simp: txn_changes_def tag_def)

lemma txn_changes_fresh:
  "\<forall>e \<in> set log. fst e < t \<Longrightarrow> txn_changes t log = []"
  by (auto simp: txn_changes_def filter_empty_conv)

text \<open>cyanaudit's undo commits, in a transaction of its own, whenever the inverse of the
  recorded changes applies to the present tables.\<close>

lemma fn_undo_transaction_Inr:
  "apply_changes (inverse_changes (txn_changes t (audit_log w))) (schemas w) = Inr S' \<Longrightarrow>
     fn_undo_transaction t w =
       (Inr (), w\<lparr>next_txid := Suc (next_txid w), schemas := S',
                  audit_log := audit_log w @ tag (next_txid w) (inverse_changes (txn_changes t (audit_log w)))\<rparr>)"
  unfolding fn_undo_transaction_def by (rule with_transaction_Inr) (simp add: log_writes_Inr)

text \<open>The undo of a transaction whose recorded changes were a faithful run from \<open>S0\<close>
  to the present tables restores \<open>S0\<close>.\<close>

lemma fn_undo_transaction_restores:
  assumes "wf_schemas S0" "logged_run cs S0" "apply_changes cs S0 = Inr (schemas w)"
    and "txn_changes t (audit_log w) = cs"
  shows "fn_undo_transaction t w =
           (Inr (), w\<lparr>next_txid := Suc (next_txid w), schemas := S0,
                      audit_log := audit_log w @ tag (next_txid w) (inverse_changes cs)\<rparr>)"
  using fn_undo_transaction_Inr [of t w S0] apply_inverse_changes [OF assms(1-3)] assms(4) by simp

section \<open>Lemmas: the identifier counter\<close>

lemma wf_world_console [simp]: "wf_world (w\<lparr>console := l\<rparr>) = wf_world w"
  by (simp add: wf_world_def)

text \<open>Only \<open>with_transaction\<close> draws identifiers: no table operation moves the counter,
  whether it succeeds or fails.\<close>

named_theorems next_txid_ops "table operations keep the transaction counter"

lemma next_txid_bind:
  assumes m: "\<And>w. next_txid (snd (m w)) = next_txid w"
    and f: "\<And>a w. next_txid (snd (f a w)) = next_txid w"
  shows "next_txid (snd (bind_exc m f w)) = next_txid w"
proof (cases "m w")
  case (Pair r w1)
  from m [of w] Pair have w1: "next_txid w1 = next_txid w" by simp
  show ?thesis
  proof (cases r)
    case (Inl e)
    with Pair w1 show ?thesis by (simp add: bind_exc_def)
  next
    case (Inr a)
    with Pair w1 f [of a w1] show ?thesis by (simp add: bind_exc_def)
  qed
qed

lemma next_txid_ret [next_txid_ops]: "next_txid (snd (ret a w)) = next_txid w"
  and next_txid_raise [next_txid_ops]: "next_txid (snd (raise e w)) = next_txid w"
  and next_txid_tables_of [next_txid_ops]: "next_txid (snd (tables_of s w)) = next_txid w"
  and next_txid_log_write [next_txid_ops]: "next_txid (snd (log_write t s c w)) = next_txid w"
  and next_txid_nextval [next_txid_ops]: "next_txid (snd (nextval_index_state_id s w)) = next_txid w"
  by (auto simp: tables_of_def log_write_def nextval_index_state_id_def split: option.splits sum.splits)

lemma next_txid_findOne_index_state [next_txid_ops]: "next_txid (snd (findOne_index_state s i w)) = next_txid w"
  unfolding findOne_index_state_def by (intro next_txid_bind next_txid_ops)

lemma next_txid_save_index_state [next_txid_ops]: "next_txid (snd (save_index_state t s oid r w)) = next_txid w"
  unfolding save_index_state_def
  by (cases oid) (auto intro!: next_txid_bind next_txid_ops split: option.splits)

lemma next_txid_insert_block_number_txid [next_txid_ops]:
  "next_txid (snd (insert_block_number_txid t s b x w)) = next_txid w"
  unfolding insert_block_number_txid_def by (rule next_txid_ops)

lemma next_txid_write_row [next_txid_ops]: "next_txid (snd (write_row t s k v w)) = next_txid w"
  unfolding write_row_def by (intro next_txid_bind next_txid_ops)

lemma next_txid_write_rows [next_txid_ops]: "next_txid (snd (write_rows t s ws w)) = next_txid w"
proof (induction ws arbitrary: w)
  case Nil
  then show ?case by simp
next
  case (Cons kv ws)
  then show ?case by (cases kv) (auto intro!: next_txid_bind next_txid_ops)
qed

section \<open>Lemmas: effects of transaction bodies\<close>

lemma eff_refl [intro]: "next_txid w' = next_txid w \<Longrightarrow> console w' = console w \<Longrightarrow>
  schemas w' = schemas w \<Longrightarrow> audit_log w' = audit_log w \<Longrightarrow> eff t s w w'"
  unfolding eff_def by (rule conjI, rule exI [of _ "[]"]) simp_all

lemma eff_trans: "eff t s w1 w2 \<Longrightarrow> eff t s w2 w3 \<Longrightarrow> eff t s w1 w3"
proof -
  assume e1: "eff t s w1 w2" and e2: "eff t s w2 w3"
  from e1 obtain cs1 where c1: "logged_run cs1 (schemas w1)" "apply_changes cs1 (schemas w1) = Inr (schemas w2)"
    "audit_log w2 = audit_log w1 @ tag t cs1" "list_all (\<lambda>sc. fst sc = s) cs1"
    by (auto simp: eff_def)
  from e2 obtain cs2 where c2: "logged_run cs2 (schemas w2)" "apply_changes cs2 (schemas w2) = Inr (schemas w3)"
    "audit_log w3 = audit_log w2 @ tag t cs2" "list_all (\<lambda>sc. fst sc = s) cs2"
    by (auto simp: eff_def)
  from c1 c2 have "logged_run (cs1 @ cs2) (schemas w1)"
    by (blast intro: logged_run_append)
  moreover from c1 c2 have "apply_changes (cs1 @ cs2) (schemas w1) = Inr (schemas w3)"
    by (simp add: apply_changes_append)
  ultimately show ?thesis using e1 e2 c1 c2 unfolding eff_def
    by (intro conjI exI [of _ "cs1 @ cs2"]) simp_all
qed

lemma apply_changes_other_schema:
  "apply_changes cs S = Inr S' \<Longrightarrow> list_all (\<lambda>sc. fst sc = s) cs \<Longrightarrow> s' \<noteq> s \<Longrightarrow> S' s' = S s'"
proof (induction cs arbitrary: S)
  case Nil
  then show ?case by simp
next
  case (Cons sc cs)
  then show ?case by (cases sc) (auto split: option.splits sum.splits)
qed

lemma eff_other_schemas: "eff t s w w' \<Longrightarrow> s' \<noteq> s \<Longrightarrow> schemas w' s' = schemas w s'"
  unfolding eff_def by (blast dest: apply_changes_other_schema)

lemma eff_bind:
  assumes "bind_exc m f w = (Inr b, w'')"
    and "\<And>a w'. m w = (Inr a, w') \<Longrightarrow> eff t s w w'"
    and "\<And>a w' w''. f a w' = (Inr b, w'') \<Longrightarrow> eff t s w' w''"
  shows "eff t s w w''"
  using assms by (auto simp: bind_exc_Inr_iff intro: eff_trans)

lemma eff_log_write:
  assumes "log_write t s c w = (Inr (), w')" "schemas w s = Some tb" "faithful c tb"
  shows "eff t s w w'"
proof -
  from assms(1,2) obtain tb' where tb': "apply_change c tb = Inr tb'"
    and w': "w' = w\<lparr>schemas := (schemas w)(s \<mapsto> tb'), audit_log := audit_log w @ [(t, s, c)]\<rparr>"
    by (auto simp: log_write_def split: sum.splits)
  from assms(2,3) tb' w' show ?thesis
    unfolding eff_def by (intro conjI exI [of _ "[(s, c)]"]) simp_all
qed

lemma log_write_Inr_tables:
  "log_write t s c w = (Inr (), w') \<Longrightarrow> \<exists>tb tb'. schemas w s = Some tb \<and> apply_change c tb = Inr tb'"
  by (auto simp: log_write_def split: option.splits sum.splits)

lemma tables_of_Inr: "tables_of s w = (Inr tb, w') \<longleftrightarrow> schemas w s = Some tb \<and> w' = w"
  by (auto simp: tables_of_def split: option.splits)

lemma findOne_index_state_Inr:
  "findOne_index_state s i w = (Inr r, w') \<Longrightarrow> w' = w \<and> (\<exists>tb. schemas w s = Some tb \<and> r = map_option (Pair i) (map_of (index_state tb) i))"
  by (auto simp: findOne_index_state_def bind_exc_Inr_iff tables_of_Inr)

lemma eff_tables_of: "tables_of s' w = (Inr tb, w') \<Longrightarrow> eff t s w w'"
  by (auto simp: tables_of_Inr)

lemma eff_findOne_index_state: "findOne_index_state s' i w = (Inr r, w') \<Longrightarrow> eff t s w w'"
  by (auto dest: findOne_index_state_Inr)

lemma eff_save_index_state:
  "save_index_state t s oid r w = (Inr (), w') \<Longrightarrow> eff t s w w'"
proof (cases oid)
  case None
  assume run: "save_index_state t s oid r w = (Inr (), w')"
  with None obtain i w1 where n: "nextval_index_state_id s w = (Inr i, w1)"
    and lw: "log_write t s (IndexStateInsert i r) w1 = (Inr (), w')"
    by (auto simp: save_index_state_def bind_exc_Inr_iff)
  from n have e1: "eff t s w w1" by (auto simp: nextval_index_state_id_def)
  from lw obtain tb tb' where "schemas w1 s = Some tb" "apply_change (IndexStateInsert i r) tb = Inr tb'"
    by (blast dest: log_write_Inr_tables)
  with lw have "eff t s w1 w'" by (auto intro: eff_log_write split: if_splits)
  with e1 show ?thesis by (rule eff_trans)
next
  case (Some i)
  assume run: "save_index_state t s oid r w = (Inr (), w')"
  with Some obtain tb where tb: "schemas w s = Some tb"
    and rest: "(case map_of (index_state tb) i of None \<Rightarrow> ret () | Some old \<Rightarrow> log_write t s (IndexStateUpdate i old r)) w = (Inr (), w')"
    by (auto simp: save_index_state_def bind_exc_Inr_iff tables_of_Inr)
  show ?thesis
  proof (cases "map_of (index_state tb) i")
    case None
    with rest show ?thesis by auto
  next
    case (Some old)
    with rest tb show ?thesis by (auto intro: eff_log_write)
  qed
qed

lemma eff_insert_block_number_txid:
  "insert_block_number_txid t s b x w = (Inr (), w') \<Longrightarrow> eff t s w w'"
  unfolding insert_block_number_txid_def
  by (frule log_write_Inr_tables) (auto intro: eff_log_write split: if_splits)

lemma eff_write_row: "write_row t s k v w = (Inr (), w') \<Longrightarrow> eff t s w w'"
  by (auto simp: write_row_def bind_exc_Inr_iff tables_of_Inr intro: eff_log_write)

lemma eff_write_rows: "write_rows t s ws w = (Inr (), w') \<Longrightarrow> eff t s w w'"
proof (induction ws arbitrary: w)
  case Nil
  then show ?case by auto
next
  case (Cons kv ws)
  then show ?case
    by (cases kv) (auto simp: bind_exc_Inr_iff intro: eff_trans eff_write_row)
qed

lemmas eff_ops = eff_tables_of eff_findOne_index_state eff_save_index_state
  eff_insert_block_number_txid eff_write_row eff_write_rows

section \<open>Lemmas: what each table operation writes\<close>

lemma write_row_frame:
  "write_row t s k v w = (Inr (), w') \<Longrightarrow>
     (\<forall>s'. map_option bookkeeping (schemas w' s') = map_option bookkeeping (schemas w s')) \<and> id_seq w' = id_seq w"
  by (auto simp: write_row_def bind_exc_Inr_iff tables_of_Inr log_write_def bookkeeping_def
      split: option.splits sum.splits)

lemma write_rows_frame:
  "write_rows t s ws w = (Inr (), w') \<Longrightarrow>
     (\<forall>s'. map_option bookkeeping (schemas w' s') = map_option bookkeeping (schemas w s')) \<and> id_seq w' = id_seq w"
proof (induction ws arbitrary: w)
  case Nil
  then show ?case by simp
next
  case (Cons kv ws)
  then obtain w1 where "write_row t s (fst kv) (snd kv) w = (Inr (), w1)" "write_rows t s ws w1 = (Inr (), w')"
    by (cases kv) (auto simp: bind_exc_Inr_iff)
  with Cons.IH show ?case by (metis write_row_frame)
qed

lemma save_index_state_found:
  assumes "save_index_state t s (Some i) r w = (Inr (), w')" "schemas w s = Some tb"
    and "map_of (index_state tb) i \<noteq> None"
  shows "schemas w' = (schemas w)(s \<mapsto> tb\<lparr>index_state := set_key i r (index_state tb)\<rparr>) \<and> id_seq w' = id_seq w"
  using assms by (auto simp: save_index_state_def bind_exc_Inr_iff tables_of_Inr log_write_def)

lemma save_index_state_new:
  assumes "save_index_state t s None r w = (Inr (), w')" "schemas w s = Some tb"
  shows "schemas w' = (schemas w)(s \<mapsto> tb\<lparr>index_state := index_state tb @ [(Suc (id_seq w s), r)]\<rparr>)
         \<and> id_seq w' = (id_seq w)(s := Suc (id_seq w s)) \<and> Suc (id_seq w s) \<notin> set (map fst (index_state tb))"
  using assms by (auto simp: save_index_state_def bind_exc_Inr_iff nextval_index_state_id_def log_write_def
      split: if_splits)

lemma insert_block_number_txid_Inr:
  assumes "insert_block_number_txid t s b x w = (Inr (), w')" "schemas w s = Some tb"
  shows "schemas w' = (schemas w)(s \<mapsto> tb\<lparr>block_number_txid := block_number_txid tb @ [(b, x)]\<rparr>)
         \<and> id_seq w' = id_seq w \<and> b \<notin> set (map fst (block_number_txid tb))"
  using assms by (auto simp: insert_block_number_txid_def log_write_def split: if_splits)

section \<open>Lemmas: the descending query\<close>

lemma rows_above_desc_none:
  "\<forall>b \<in> set (map fst xs). b \<le> n \<Longrightarrow> rows_above_desc n xs = []"
proof -
  assume "\<forall>b \<in> set (map fst xs). b \<le> n"
  then have "filter (\<lambda>r. n < fst r) xs = []" by (auto simp: filter_empty_conv)
  then show ?thesis by (simp add: rows_above_desc_def)
qed

lemma rows_above_desc_snoc:
  "\<forall>k \<in> set (map fst xs). k < b \<Longrightarrow> n < b \<Longrightarrow> rows_above_desc n (xs @ [(b, t)]) = (b, t) # rows_above_desc n xs"
  by (simp add: rows_above_desc_def sort_key_snoc_max)

lemma set_rows_above_desc: "set (rows_above_desc n xs) = {r \<in> set xs. n < fst r}"
  by (auto simp: rows_above_desc_def)

lemma rows_above_desc_sorted:
  "distinct (map fst xs) \<Longrightarrow> sorted_wrt (>) (map fst (rows_above_desc n xs))"
proof -
  assume d: "distinct (map fst xs)"
  have "sorted (map fst (sort_key fst (filter (\<lambda>r. n < fst r) xs)))" by simp
  moreover have "distinct (map fst (sort_key fst (filter (\<lambda>r. n < fst r) xs)))"
  proof -
    from d have "distinct (map fst (filter (\<lambda>r. n < fst r) xs))" by (simp add: distinct_map_filter)
    then show ?thesis by (simp add: distinct_map)
  qed
  ultimately have "sorted_wrt (<) (map fst (sort_key fst (filter (\<lambda>r. n < fst r) xs)))"
    by (simp add: strict_sorted_iff)
  then have "sorted_wrt (>) (rev (map fst (sort_key fst (filter (\<lambda>r. n < fst r) xs))))"
    by (simp add: sorted_wrt_rev)
  then show ?thesis by (simp add: rows_above_desc_def rev_map)
qed

section \<open>Lemmas: what an undo leaves behind\<close>

lemma log_writes_Inr_effect:
  "log_writes t cs w = (Inr (), w') \<Longrightarrow>
     apply_changes cs (schemas w) = Inr (schemas w') \<and> audit_log w' = audit_log w @ tag t cs
     \<and> next_txid w' = next_txid w \<and> console w' = console w"
proof (induction cs arbitrary: w)
  case Nil
  then show ?case by simp
next
  case (Cons sc cs)
  obtain s c where sc: "sc = (s, c)" by fastforce
  with Cons.prems obtain w1 where lw: "log_write t s c w = (Inr (), w1)" and rest: "log_writes t cs w1 = (Inr (), w')"
    by (auto simp: bind_exc_Inr_iff)
  from lw obtain tb tb' where "schemas w s = Some tb" "apply_change c tb = Inr tb'"
    "w1 = w\<lparr>schemas := (schemas w)(s \<mapsto> tb'), audit_log := audit_log w @ [(t, s, c)]\<rparr>"
    by (auto simp: log_write_def split: option.splits sum.splits)
  with Cons.IH [OF rest] show ?case by (simp add: sc)
qed

lemma next_txid_log_writes: "next_txid (snd (log_writes t cs w)) = next_txid w"
proof (induction cs arbitrary: w)
  case Nil
  then show ?case by simp
next
  case (Cons sc cs)
  then show ?case by (cases sc) (auto intro!: next_txid_bind next_txid_ops)
qed

lemma console_log_writes: "console (snd (log_writes t cs w)) = console w"
proof (induction cs arbitrary: w)
  case Nil
  then show ?case by simp
next
  case (Cons sc cs)
  obtain s c where sc: "sc = (s, c)" by fastforce
  show ?case
  proof (cases "log_write t s c w")
    case (Pair r w1)
    have "console w1 = console w"
      using Pair by (auto simp: log_write_def split: option.splits sum.splits)
    with Pair Cons.IH [of w1] show ?thesis by (cases r) (simp_all add: sc bind_exc_def)
  qed
qed

lemma fn_undo_transaction_wf:
  assumes wf: "wf_world w" and run: "fn_undo_transaction t w = (r, w')"
  shows "wf_world w' \<and> console w' = console w"
proof -
  let ?cs = "inverse_changes (txn_changes t (audit_log w))"
  let ?w1 = "w\<lparr>next_txid := Suc (next_txid w)\<rparr>"
  obtain r1 w2 where lw: "log_writes (next_txid w) ?cs ?w1 = (r1, w2)" by fastforce
  have nt: "next_txid w2 = Suc (next_txid w)" and cw: "console w2 = console w"
    using next_txid_log_writes [of "next_txid w" ?cs ?w1] console_log_writes [of "next_txid w" ?cs ?w1] lw
    by simp_all
  show ?thesis
  proof (cases r1)
    case (Inl e)
    with run lw have "w' = abort_tx w w2"
      by (simp add: fn_undo_transaction_def with_transaction_def)
    with wf nt cw show ?thesis by (auto simp: abort_tx_def wf_world_def)
  next
    case (Inr u)
    with run lw have w': "w' = w2"
      by (simp add: fn_undo_transaction_def with_transaction_def)
    from Inr lw have "apply_changes ?cs (schemas w) = Inr (schemas w2)"
      and "audit_log w2 = audit_log w @ tag (next_txid w) ?cs"
      by (auto dest: log_writes_Inr_effect)
    with wf nt cw w' show ?thesis
      by (auto simp: wf_world_def tag_def less_Suc_eq intro: apply_changes_wf)
  qed
qed

section \<open>Lemmas: when the table operations succeed\<close>

lemma write_rows_total:
  "schemas w s \<noteq> None \<Longrightarrow> \<exists>w'. write_rows t s ws w = (Inr (), w') \<and> schemas w' s \<noteq> None"
proof (induction ws arbitrary: w)
  case Nil
  then show ?case by simp
next
  case (Cons kv ws)
  obtain k v where kv: "kv = (k, v)" by fastforce
  from Cons.prems obtain tb where tb: "schemas w s = Some tb" by blast
  let ?w1 = "w\<lparr>schemas := (schemas w)(s \<mapsto> tb\<lparr>rows := (rows tb)(k := v)\<rparr>),
                audit_log := audit_log w @ [(t, s, RowWrite k (rows tb k) v)]\<rparr>"
  from tb have "write_row t s k v w = (Inr (), ?w1)"
    by (simp add: write_row_def tables_of_def log_write_def bind_exc_def)
  moreover from Cons.IH [of ?w1] obtain w' where "write_rows t s ws ?w1 = (Inr (), w')" "schemas w' s \<noteq> None"
    by auto
  ultimately show ?case by (simp add: kv bind_exc_def)
qed


section \<open>Lemmas: the serial sequences only advance\<close>

text \<open>No operation moves a sequence back: only \<open>nextval\<close> moves one, forward, and an
  aborted transaction keeps the values it drew.\<close>

named_theorems seq_ops "operations after which every serial sequence is at least where it was"

lemma id_seq_bind:
  assumes "bind_exc m f w = (r, w')"
    and "\<And>x r x'. m x = (r, x') \<Longrightarrow> id_seq x s \<le> id_seq x' s"
    and "\<And>a x r x'. f a x = (r, x') \<Longrightarrow> id_seq x s \<le> id_seq x' s"
  shows "id_seq w s \<le> id_seq w' s"
  using assms(1)
proof (elim bind_exc_inv [where P = "\<lambda>x. id_seq w s \<le> id_seq x s", rotated 3])
  show "\<And>x r x'. id_seq w s \<le> id_seq x s \<Longrightarrow> m x = (r, x') \<Longrightarrow> id_seq w s \<le> id_seq x' s"
    using assms(2) order_trans by blast
  show "\<And>a x r x'. id_seq w s \<le> id_seq x s \<Longrightarrow> f a x = (r, x') \<Longrightarrow> id_seq w s \<le> id_seq x' s"
    using assms(3) order_trans by blast
qed simp

lemma id_seq_with_transaction:
  assumes "with_transaction body w = (r, w')"
    and "\<And>t x r x'. body t x = (r, x') \<Longrightarrow> id_seq x s \<le> id_seq x' s"
  shows "id_seq w s \<le> id_seq w' s"
proof -
  obtain r2 w2 where b: "body (next_txid w) (w\<lparr>next_txid := Suc (next_txid w)\<rparr>) = (r2, w2)" by fastforce
  from assms(2) [OF b] have "id_seq w s \<le> id_seq w2 s" by simp
  with assms(1) b show ?thesis by (auto simp: with_transaction_def abort_tx_def split: sum.splits)
qed

lemma id_seq_ret [seq_ops]: "ret a x = (r, x') \<Longrightarrow> id_seq x s \<le> id_seq x' s"
  and id_seq_raise [seq_ops]: "raise e x = (r, x') \<Longrightarrow> id_seq x s \<le> id_seq x' s"
  and id_seq_tables_of [seq_ops]: "tables_of s' x = (r', x') \<Longrightarrow> id_seq x s \<le> id_seq x' s"
  and id_seq_log_write [seq_ops]: "log_write t s' c x = (r, x') \<Longrightarrow> id_seq x s \<le> id_seq x' s"
  and id_seq_nextval [seq_ops]: "nextval_index_state_id s' x = (i, x') \<Longrightarrow> id_seq x s \<le> id_seq x' s"
  and id_seq_console_info [seq_ops]: "console_info l x = (r, x') \<Longrightarrow> id_seq x s \<le> id_seq x' s"
  by (auto simp: tables_of_def log_write_def nextval_index_state_id_def console_info_def
      split: option.splits sum.splits)

lemma id_seq_findOne_index_state [seq_ops]:
  "findOne_index_state s' i x = (r, x') \<Longrightarrow> id_seq x s \<le> id_seq x' s"
  unfolding findOne_index_state_def by (elim id_seq_bind) (auto dest: seq_ops)

lemma id_seq_save_index_state [seq_ops]:
  "save_index_state t s' oid row x = (r, x') \<Longrightarrow> id_seq x s \<le> id_seq x' s"
  unfolding save_index_state_def
  by (cases oid) (auto elim!: id_seq_bind dest: seq_ops split: option.splits)

lemma id_seq_insert_block_number_txid [seq_ops]:
  "insert_block_number_txid t s' b u x = (r, x') \<Longrightarrow> id_seq x s \<le> id_seq x' s"
  unfolding insert_block_number_txid_def by (rule seq_ops)

lemma id_seq_write_row [seq_ops]: "write_row t s' k v x = (r, x') \<Longrightarrow> id_seq x s \<le> id_seq x' s"
  unfolding write_row_def by (elim id_seq_bind) (auto dest: seq_ops)

lemma id_seq_write_rows [seq_ops]: "write_rows t s' ws x = (r, x') \<Longrightarrow> id_seq x s \<le> id_seq x' s"
proof (induction ws arbitrary: x r x')
  case Nil
  then show ?case by simp
next
  case (Cons kv ws)
  then show ?case by (cases kv) (auto elim!: id_seq_bind dest: seq_ops)
qed

lemma id_seq_log_writes [seq_ops]: "log_writes t cs x = (r, x') \<Longrightarrow> id_seq x s \<le> id_seq x' s"
proof (induction cs arbitrary: x r x')
  case Nil
  then show ?case by simp
next
  case (Cons sc cs)
  then show ?case by (cases sc) (auto elim!: id_seq_bind dest: seq_ops)
qed

lemma id_seq_fn_undo_transaction [seq_ops]:
  "fn_undo_transaction u x = (r, x') \<Longrightarrow> id_seq x s \<le> id_seq x' s"
  unfolding fn_undo_transaction_def by (elim id_seq_with_transaction) (auto dest: seq_ops)

text \<open>An undo draws the next identifier and adds to the audit log only records tagged
  with it, whether it commits or aborts.\<close>

lemma fn_undo_transaction_log:
  assumes "fn_undo_transaction u x = (r, x')"
  shows "next_txid x' = Suc (next_txid x) \<and> (\<exists>ys. audit_log x' = audit_log x @ ys \<and> (\<forall>e \<in> set ys. fst e = next_txid x))"
proof -
  let ?cs = "inverse_changes (txn_changes u (audit_log x))"
  let ?x1 = "x\<lparr>next_txid := Suc (next_txid x)\<rparr>"
  obtain r1 x2 where lw: "log_writes (next_txid x) ?cs ?x1 = (r1, x2)" by fastforce
  have nt: "next_txid x2 = Suc (next_txid x)"
    using next_txid_log_writes [of "next_txid x" ?cs ?x1] lw by simp
  show ?thesis
  proof (cases r1)
    case (Inl e)
    with assms lw nt show ?thesis
      by (auto simp: fn_undo_transaction_def with_transaction_def abort_tx_def)
  next
    case (Inr v)
    with lw have "audit_log x2 = audit_log x @ tag (next_txid x) ?cs"
      by (cases v) (auto dest: log_writes_Inr_effect)
    with Inr assms lw nt show ?thesis
      by (auto simp: fn_undo_transaction_def with_transaction_def tag_def)
  qed
qed

end
