(* ===== verification/IndexState.thy ===== *)
theory IndexState
  imports Database
begin

text \<open>
  The handler object of \<open>src/src/MassiveActionHandler.ts\<close> and its access to the
  Index State Store: the constructor (lines 8-22), \<open>updateIndexState\<close> (lines 46-68),
  which writes the cursor row and the block-number/transaction-id row inside the
  block's transaction, and \<open>loadIndexState\<close> (lines 70-84), which reads the cursor
  back, falling back to a default on a fresh schema.
\<close>

section \<open>The handler object\<close>

text \<open>The fields the class declares: the handler versions (by name) and the schema.
  The MassiveJS instance is the world every operation is applied to.\<close>

record handler =
  handlerVersions :: "string list"
  dbSchema :: schema_name

text \<open>\<open>new MassiveActionHandler(handlerVersions, massiveInstance, dbSchema = "public")\<close>;
  \<open>None\<close> is the omitted argument.\<close>

definition new_MassiveActionHandler :: "string list \<Rightarrow> schema_name option \<Rightarrow> handler" where
  "new_MassiveActionHandler hvs sch =
     \<lparr>handlerVersions = hvs, dbSchema = (case sch of None \<Rightarrow> ''public'' | Some s \<Rightarrow> s)\<rparr>"

text \<open>\<open>schemaInstance\<close>: the MassiveJS instance itself for \<open>public\<close> (whose tables
  MassiveJS exposes at top level), \<open>massiveInstance[dbSchema]\<close> otherwise; both name the
  tables of the configured schema.\<close>

definition schemaInstance :: "handler \<Rightarrow> schema_name" where
  "schemaInstance h = (if dbSchema h = ''public'' then ''public'' else dbSchema h)"

section \<open>Writing the index state\<close>

text \<open>The object \<open>updateIndexState\<close> saves (lines 55-61): the row read back, if
  any, with the four columns overwritten. Only the row's \<open>id\<close> survives the
  overwrite, and \<open>save\<close> receives it separately.\<close>

definition toSave :: "block_info \<Rightarrow> bool \<Rightarrow> string \<Rightarrow> index_state_row" where
  "toSave bi isReplay handlerVersionName =
     \<lparr>block_number = blockNumber bi, block_hash = blockHash bi,
      is_replay = isReplay, handler_version_name = handlerVersionName\<rparr>"

text \<open>\<open>updateIndexState(state, block, isReplay, handlerVersionName, context)\<close>:
  \<open>state\<close> is the transaction handle, \<open>context\<close> carries \<open>txid\<close>.\<close>

definition updateIndexState ::
  "tx_handle \<Rightarrow> 'a block \<Rightarrow> bool \<Rightarrow> string \<Rightarrow> txid \<Rightarrow> ('k, 'v, unit) op" where
  "updateIndexState state block isReplay handlerVersionName context =
     (let bi = blockInfo block in
      bind_exc (findOne_index_state (snd state) 1) (\<lambda>fromDb.
        bind_exc (save_index_state (fst state) (snd state) (map_option fst fromDb)
                    (toSave bi isReplay handlerVersionName)) (\<lambda>_.
           insert_block_number_txid (fst state) (snd state) (blockNumber bi) context)))"

section \<open>Reading the index state\<close>

definition defaultIndexState :: index_state_row where
  "defaultIndexState =
     \<lparr>block_number = 0, block_hash = '''', is_replay = False, handler_version_name = ''v1''\<rparr>"

text \<open>The value \<open>loadIndexState\<close> returns (demux's \<open>IndexState\<close>, lines 78-83): the
  four columns under camel-case names. The names carry the prefix \<open>mi_\<close> because
  \<open>blockNumber\<close> and \<open>blockHash\<close> already name the fields of a block header.\<close>

record migration_index_state =
  mi_blockNumber :: nat
  mi_blockHash :: string
  mi_handlerVersionName :: string
  mi_isReplay :: bool

definition to_MigrationIndexState :: "index_state_row \<Rightarrow> migration_index_state" where
  "to_MigrationIndexState indexState =
     \<lparr>mi_blockNumber = block_number indexState, mi_blockHash = block_hash indexState,
      mi_handlerVersionName = handler_version_name indexState, mi_isReplay = is_replay indexState\<rparr>"

definition loadIndexState :: "handler \<Rightarrow> ('k, 'v, migration_index_state) op" where
  "loadIndexState h =
     bind_exc (findOne_index_state (schemaInstance h) 1) (\<lambda>found.
       let indexState = (case found of Some (_, r) \<Rightarrow> r | None \<Rightarrow> defaultIndexState)
       in ret (to_MigrationIndexState indexState))"

declare new_MassiveActionHandler_def [eval_defs]
  schemaInstance_def [eval_defs]
  toSave_def [eval_defs]
  updateIndexState_def [eval_defs]
  defaultIndexState_def [eval_defs]
  to_MigrationIndexState_def [eval_defs]
  loadIndexState_def [eval_defs]

section \<open>Lemmas\<close>

lemma schemaInstance_eq [simp]: "schemaInstance h = dbSchema h"
  by (simp add: schemaInstance_def)

lemma eff_updateIndexState:
  "updateIndexState (t, s) block isReplay hvn context w = (Inr (), w') \<Longrightarrow> eff t s w w'"
  unfolding updateIndexState_def Let_def
  by (auto elim!: eff_bind intro: eff_ops)

text \<open>What \<open>updateIndexState\<close> writes: the cursor row at id 1 when that row exists, at the
  next serial id otherwise, and one \<open>_block_number_txid\<close> row; nothing else.\<close>

lemma updateIndexState_Inr:
  assumes run: "updateIndexState (t, s) block isReplay hvn context w = (Inr (), w')"
    and tb: "schemas w s = Some tb"
  defines "i \<equiv> (if map_of (index_state tb) 1 = None then Suc (id_seq w s) else 1)"
  shows "\<exists>tb'. schemas w' = (schemas w)(s \<mapsto> tb')
     \<and> map_of (index_state tb') = (map_of (index_state tb))(i \<mapsto>
          \<lparr>block_number = blockNumber (blockInfo block), block_hash = blockHash (blockInfo block),
           is_replay = isReplay, handler_version_name = hvn\<rparr>)
     \<and> block_number_txid tb' = block_number_txid tb @ [(blockNumber (blockInfo block), context)]
     \<and> rows tb' = rows tb
     \<and> id_seq w' s = (if map_of (index_state tb) 1 = None then Suc (id_seq w s) else id_seq w s)"
proof -
  let ?r = "\<lparr>block_number = blockNumber (blockInfo block), block_hash = blockHash (blockInfo block),
           is_replay = isReplay, handler_version_name = hvn\<rparr>"
  from run tb obtain w1 where
    save: "save_index_state t s (map_option fst (map_option (Pair 1) (map_of (index_state tb) 1))) ?r w = (Inr (), w1)"
    and ins: "insert_block_number_txid t s (blockNumber (blockInfo block)) context w1 = (Inr (), w')"
    by (auto simp: updateIndexState_def toSave_def Let_def bind_exc_Inr_iff dest!: findOne_index_state_Inr)
  obtain tb1 where w1: "schemas w1 = (schemas w)(s \<mapsto> tb1)" "block_number_txid tb1 = block_number_txid tb"
    "rows tb1 = rows tb" "map_of (index_state tb1) = (map_of (index_state tb))(i \<mapsto> ?r)"
    "id_seq w1 s = (if map_of (index_state tb) 1 = None then Suc (id_seq w s) else id_seq w s)"
  proof (cases "map_of (index_state tb) 1")
    case None
    from save None have save': "save_index_state t s None ?r w = (Inr (), w1)" by simp
    from save_index_state_new [OF save' tb]
    have w1: "schemas w1 = (schemas w)(s \<mapsto> tb\<lparr>index_state := index_state tb @ [(Suc (id_seq w s), ?r)]\<rparr>)"
      and fresh: "Suc (id_seq w s) \<notin> set (map fst (index_state tb))"
      and seq: "id_seq w1 = (id_seq w)(s := Suc (id_seq w s))"
      by blast+
    from None seq have s1: "id_seq w1 s = (if map_of (index_state tb) 1 = None then Suc (id_seq w s) else id_seq w s)"
      by simp
    from None have "i = Suc (id_seq w s)" by (simp add: i_def)
    then show ?thesis
      by (intro that [OF w1 _ _ _ s1]) (simp_all add: map_of_snoc_fresh [OF fresh] del: map_of_append)
  next
    case (Some old)
    with save tb have w1: "schemas w1 = (schemas w)(s \<mapsto> tb\<lparr>index_state := set_key 1 ?r (index_state tb)\<rparr>)"
      and seq: "id_seq w1 = id_seq w"
      by (auto dest: save_index_state_found)
    from Some have "i = 1" by (simp add: i_def)
    moreover from Some have "1 \<in> set (map fst (index_state tb))" by (force dest: map_of_SomeD)
    moreover from Some seq have s1: "id_seq w1 s = (if map_of (index_state tb) 1 = None then Suc (id_seq w s) else id_seq w s)"
      by simp
    ultimately show ?thesis
      by (intro that [OF w1 _ _ _ s1]) simp_all
  qed
  let ?tb' = "tb1\<lparr>block_number_txid := block_number_txid tb1 @ [(blockNumber (blockInfo block), context)]\<rparr>"
  from w1(1) have "schemas w1 s = Some tb1" by simp
  from insert_block_number_txid_Inr [OF ins this] have "schemas w' = (schemas w1)(s \<mapsto> ?tb')"
    and "id_seq w' = id_seq w1" by blast+
  with w1 show ?thesis by (intro exI [of _ ?tb']) simp
qed

lemma loadIndexState_found:
  "schemas w (dbSchema h) = Some tb \<Longrightarrow> map_of (index_state tb) 1 = Some r \<Longrightarrow>
     loadIndexState h w = (Inr (to_MigrationIndexState r), w)"
  by (simp add: loadIndexState_def findOne_index_state_def tables_of_def bind_exc_def)

lemma loadIndexState_absent:
  "schemas w (dbSchema h) = Some tb \<Longrightarrow> map_of (index_state tb) 1 = None \<Longrightarrow>
     loadIndexState h w = (Inr (to_MigrationIndexState defaultIndexState), w)"
  by (simp add: loadIndexState_def findOne_index_state_def tables_of_def bind_exc_def)

lemma updateIndexState_total:
  assumes "schemas w s = Some tb"
    and "blockNumber (blockInfo block) \<notin> set (map fst (block_number_txid tb))"
    and "map_of (index_state tb) 1 \<noteq> None \<or> Suc (id_seq w s) \<notin> set (map fst (index_state tb))"
  shows "\<exists>w'. updateIndexState (t, s) block isReplay hvn ctx w = (Inr (), w')"
proof (cases "map_of (index_state tb) 1")
  case None
  with assms show ?thesis
    by (simp add: updateIndexState_def findOne_index_state_def tables_of_def save_index_state_def
        nextval_index_state_id_def log_write_def insert_block_number_txid_def bind_exc_def Let_def)
next
  case (Some old)
  have "1 \<in> set (map fst (index_state tb))" using Some by (force dest: map_of_SomeD)
  with Some assms show ?thesis
    by (simp add: updateIndexState_def findOne_index_state_def tables_of_def save_index_state_def
        log_write_def insert_block_number_txid_def bind_exc_def Let_def)
qed

section \<open>Properties of the index state store\<close>

text \<open>C9 (default bootstrap): on a schema whose \<open>_index_state\<close> is empty,
  \<open>loadIndexState\<close> raises no error and returns block 0, the empty hash, handler
  version \<open>v1\<close> and no replay, leaving the world unchanged.\<close>

theorem loadIndexState_fresh:
  "schemas w (dbSchema h) = Some tb \<Longrightarrow> index_state tb = [] \<Longrightarrow>
     loadIndexState h w =
       (Inr \<lparr>mi_blockNumber = 0, mi_blockHash = '''', mi_handlerVersionName = ''v1'', mi_isReplay = False\<rparr>, w)"
  by (simp add: loadIndexState_absent defaultIndexState_def to_MigrationIndexState_def)

end
