(* ===== verification/Transaction.thy ===== *)
theory Transaction
  imports IndexState
begin

text \<open>
  The Transactional Apply Engine. \<open>handleWithState\<close> (\<open>MassiveActionHandler.ts\<close>
  lines 24-44) opens a serializable transaction, reads its identifier with
  \<open>select txid_current()\<close>, scopes the handle to the configured schema and runs the
  callback, re-throwing its error so that the transaction rolls back. The callback demux
  passes to it runs the updaters of the block and then \<open>updateIndexState\<close>; demux is
  not part of this repository, so that composition (\<open>handleActions\<close>, and
  \<open>applyBlock\<close> of the spec, section 4.1) is modelled from the spec. The updaters are
  a mutation callback: given the transaction identifier and the rows it sees, it returns
  the row writes to make or the message of the error it throws. Any deterministic callback
  is of this form, since what it writes is a function of what it reads.
\<close>

type_synonym ('k, 'v) mutation = "txid \<Rightarrow> ('k \<rightharpoonup> 'v) \<Rightarrow> string + ('k \<times> 'v option) list"

text \<open>The handle the callback receives (lines 28-33): the transaction itself for
  \<open>public\<close>, \<open>tx[dbSchema]\<close> otherwise; both scope the transaction to the configured
  schema.\<close>

definition handler_db :: "handler \<Rightarrow> txid \<Rightarrow> tx_handle" where
  "handler_db h tx = (if dbSchema h = ''public'' then (tx, ''public'') else (tx, dbSchema h))"

definition handleWithState :: "handler \<Rightarrow> (tx_handle \<Rightarrow> txid \<Rightarrow> ('k, 'v, unit) op) \<Rightarrow> ('k, 'v, unit) op" where
  "handleWithState h handle =
     with_transaction (\<lambda>txid.
       let context = txid;
           db = handler_db h txid
       in handle db context)"

text \<open>The updaters of the block, run through the transaction handle (spec 4.1: the mutation
  callback receives the handle and \<open>{transactionId}\<close>).\<close>

definition run_mutation :: "('k, 'v) mutation \<Rightarrow> tx_handle \<Rightarrow> txid \<Rightarrow> ('k, 'v, unit) op" where
  "run_mutation mutate db context =
     bind_exc (tables_of (snd db)) (\<lambda>tb.
       case mutate context (rows tb) of
         Inl msg \<Rightarrow> raise (ApplicationError msg)
       | Inr ws \<Rightarrow> write_rows (fst db) (snd db) ws)"

definition handleActions ::
  "('k, 'v) mutation \<Rightarrow> 'a block \<Rightarrow> bool \<Rightarrow> string \<Rightarrow> tx_handle \<Rightarrow> txid \<Rightarrow> ('k, 'v, unit) op" where
  "handleActions mutate block isReplay handlerVersionName state context =
     bind_exc (run_mutation mutate state context) (\<lambda>_.
       updateIndexState state block isReplay handlerVersionName context)"

definition applyBlock ::
  "handler \<Rightarrow> 'a block \<Rightarrow> bool \<Rightarrow> string \<Rightarrow> ('k, 'v) mutation \<Rightarrow> ('k, 'v, unit) op" where
  "applyBlock h block isReplay handlerVersionName mutate =
     handleWithState h (handleActions mutate block isReplay handlerVersionName)"

text \<open>A run of the engine over a list of blocks, stopping at the first error, as the
  driver does when it awaits each block before the next.\<close>

fun apply_blocks ::
  "handler \<Rightarrow> bool \<Rightarrow> string \<Rightarrow> ('a block \<times> ('k, 'v) mutation) list \<Rightarrow> ('k, 'v, unit) op" where
  "apply_blocks h isReplay hvn [] = ret ()"
| "apply_blocks h isReplay hvn ((b, m) # bs) =
     bind_exc (applyBlock h b isReplay hvn m) (\<lambda>_. apply_blocks h isReplay hvn bs)"

declare handler_db_def [eval_defs]
  handleWithState_def [eval_defs]
  run_mutation_def [eval_defs]
  handleActions_def [eval_defs]
  applyBlock_def [eval_defs]

section \<open>Lemmas\<close>

lemma handleWithState_eq:
  "handleWithState h handle = with_transaction (\<lambda>t. handle (t, dbSchema h) t)"
  by (cases "dbSchema h = ''public''") (simp_all add: handleWithState_def handler_db_def)

lemma applyBlock_eq:
  "applyBlock h block isReplay hvn mutate =
     with_transaction (\<lambda>t. handleActions mutate block isReplay hvn (t, dbSchema h) t)"
  by (simp add: applyBlock_def handleWithState_eq)

lemma run_mutation_Inr:
  "run_mutation mutate (t, s) ctx w = (Inr (), w') \<Longrightarrow>
     \<exists>tb ws. schemas w s = Some tb \<and> mutate ctx (rows tb) = Inr ws \<and> write_rows t s ws w = (Inr (), w')"
proof -
  assume run: "run_mutation mutate (t, s) ctx w = (Inr (), w')"
  show ?thesis
  proof (cases "schemas w s")
    case None
    with run show ?thesis by (simp add: run_mutation_def tables_of_def bind_exc_def)
  next
    case (Some tb)
    with run show ?thesis
      by (cases "mutate ctx (rows tb)") (simp_all add: run_mutation_def tables_of_def bind_exc_def)
  qed
qed

lemma eff_handleActions:
  "handleActions mutate block isReplay hvn (t, s) ctx w = (Inr (), w') \<Longrightarrow> eff t s w w'"
  unfolding handleActions_def
  by (auto elim!: eff_bind dest!: run_mutation_Inr intro: eff_write_rows eff_updateIndexState)

lemma handleActions_Inr:
  assumes "handleActions mutate block isReplay hvn (t, s) ctx w = (Inr (), w')" "schemas w s = Some tb"
  defines "i \<equiv> (if map_of (index_state tb) 1 = None then Suc (id_seq w s) else 1)"
  shows "\<exists>tb'. schemas w' = (schemas w)(s \<mapsto> tb')
     \<and> map_of (index_state tb') = (map_of (index_state tb))(i \<mapsto>
          \<lparr>block_number = blockNumber (blockInfo block), block_hash = blockHash (blockInfo block),
           is_replay = isReplay, handler_version_name = hvn\<rparr>)
     \<and> block_number_txid tb' = block_number_txid tb @ [(blockNumber (blockInfo block), ctx)]
     \<and> id_seq w' s = (if map_of (index_state tb) 1 = None then Suc (id_seq w s) else id_seq w s)"
proof -
  from assms(1) obtain w1 where m: "run_mutation mutate (t, s) ctx w = (Inr (), w1)"
    and u: "updateIndexState (t, s) block isReplay hvn ctx w1 = (Inr (), w')"
    by (auto simp: handleActions_def bind_exc_Inr_iff)
  from m assms(2) obtain ws where "write_rows t s ws w = (Inr (), w1)"
    by (auto dest!: run_mutation_Inr)
  from write_rows_frame [OF this] have
    fr: "\<forall>s'. map_option bookkeeping (schemas w1 s') = map_option bookkeeping (schemas w s')"
    and seq: "id_seq w1 = id_seq w" by blast+
  from fr [rule_format, of s] assms(2) obtain tb1 where tb1: "schemas w1 s = Some tb1"
    "index_state tb1 = index_state tb" "block_number_txid tb1 = block_number_txid tb"
    by (cases "schemas w1 s") (auto simp: bookkeeping_def)
  from updateIndexState_Inr [OF u tb1(1)] tb1 seq obtain tb' where
    "schemas w' = (schemas w1)(s \<mapsto> tb')"
    "map_of (index_state tb') = (map_of (index_state tb))(i \<mapsto>
          \<lparr>block_number = blockNumber (blockInfo block), block_hash = blockHash (blockInfo block),
           is_replay = isReplay, handler_version_name = hvn\<rparr>)"
    "block_number_txid tb' = block_number_txid tb @ [(blockNumber (blockInfo block), ctx)]"
    "id_seq w' s = (if map_of (index_state tb) 1 = None then Suc (id_seq w s) else id_seq w s)"
    by (auto simp: i_def)
  moreover from assms(1) have "eff t s w w'" by (rule eff_handleActions)
  then have "\<forall>s'. s' \<noteq> s \<longrightarrow> schemas w' s' = schemas w s'" by (blast dest: eff_other_schemas)
  ultimately show ?thesis by (intro exI [of _ tb']) (auto simp: fun_eq_iff)
qed

lemma next_txid_handleActions:
  "next_txid (snd (handleActions mutate block isReplay hvn db ctx w)) = next_txid w"
proof -
  have "\<And>w. next_txid (snd (run_mutation mutate db ctx w)) = next_txid w"
    unfolding run_mutation_def by (intro next_txid_bind next_txid_ops) (simp split: sum.splits add: next_txid_ops)
  moreover have "\<And>w. next_txid (snd (updateIndexState db block isReplay hvn ctx w)) = next_txid w"
    unfolding updateIndexState_def Let_def by (intro next_txid_bind next_txid_ops)
  ultimately show ?thesis unfolding handleActions_def by (intro next_txid_bind)
qed

lemma applyBlock_Inr_iff:
  "applyBlock h block isReplay hvn mutate w = (Inr u, w') \<longleftrightarrow>
     handleActions mutate block isReplay hvn (next_txid w, dbSchema h) (next_txid w)
       (w\<lparr>next_txid := Suc (next_txid w)\<rparr>) = (Inr u, w')"
  by (simp add: applyBlock_eq with_transaction_Inr_iff)

lemma applyBlock_eff:
  "applyBlock h block isReplay hvn mutate w = (Inr (), w') \<Longrightarrow>
     eff (next_txid w) (dbSchema h) (w\<lparr>next_txid := Suc (next_txid w)\<rparr>) w'"
  by (simp add: applyBlock_Inr_iff eff_handleActions)

lemma applyBlock_Inl_next_txid:
  "applyBlock h block isReplay hvn mutate w = (Inl e, w') \<Longrightarrow> next_txid w' = Suc (next_txid w)"
  by (auto simp: applyBlock_eq with_transaction_def abort_tx_def Let_def next_txid_handleActions
      split: prod.splits sum.splits dest: arg_cong [where f = "\<lambda>p. next_txid (snd p)"])

lemma applyBlock_wf:
  assumes "wf_world w" and "applyBlock h block isReplay hvn mutate w = (r, w')"
  shows "wf_world w'"
proof (cases r)
  case (Inl e)
  with assms(2) have a: "applyBlock h block isReplay hvn mutate w = (Inl e, w')" by simp
  then have "schemas w' = schemas w \<and> audit_log w' = audit_log w"
    unfolding applyBlock_eq by (rule with_transaction_Inl)
  moreover from a have "next_txid w' = Suc (next_txid w)" by (rule applyBlock_Inl_next_txid)
  ultimately show ?thesis using assms(1) by (auto simp: wf_world_def)
next
  case (Inr u)
  with assms(2) have "eff (next_txid w) (dbSchema h) (w\<lparr>next_txid := Suc (next_txid w)\<rparr>) w'"
    by (auto intro: applyBlock_eff)
  then obtain cs where "apply_changes cs (schemas w) = Inr (schemas w')"
    "audit_log w' = audit_log w @ tag (next_txid w) cs" "next_txid w' = Suc (next_txid w)"
    by (auto simp: eff_def)
  with assms(1) show ?thesis
    by (auto simp: wf_world_def tag_def less_Suc_eq intro: apply_changes_wf)
qed


text \<open>What a successful \<open>applyBlock\<close> did to the tables of its schema, and that it did
  nothing else: its effect is one transaction body under the identifier it drew.\<close>

lemma applyBlock_Inr_tables:
  assumes "applyBlock h block isReplay hvn mutate w = (Inr (), w')"
    and "schemas w (dbSchema h) = Some tb"
  shows "\<exists>tb'. schemas w' = (schemas w)(dbSchema h \<mapsto> tb')
     \<and> map_of (index_state tb') = (map_of (index_state tb))
         ((if map_of (index_state tb) 1 = None then Suc (id_seq w (dbSchema h)) else 1) \<mapsto>
          \<lparr>block_number = blockNumber (blockInfo block), block_hash = blockHash (blockInfo block),
           is_replay = isReplay, handler_version_name = hvn\<rparr>)
     \<and> block_number_txid tb' = block_number_txid tb @ [(blockNumber (blockInfo block), next_txid w)]
     \<and> id_seq w' (dbSchema h) = (if map_of (index_state tb) 1 = None then Suc (id_seq w (dbSchema h))
                                 else id_seq w (dbSchema h))"
proof -
  from assms(1) have run: "handleActions mutate block isReplay hvn (next_txid w, dbSchema h) (next_txid w)
      (w\<lparr>next_txid := Suc (next_txid w)\<rparr>) = (Inr (), w')"
    by (simp add: applyBlock_Inr_iff)
  have seq: "id_seq (w\<lparr>next_txid := Suc (next_txid w)\<rparr>) = id_seq w"
    and sch: "schemas (w\<lparr>next_txid := Suc (next_txid w)\<rparr>) = schemas w" by simp_all
  from assms(2) have "schemas (w\<lparr>next_txid := Suc (next_txid w)\<rparr>) (dbSchema h) = Some tb" by simp
  from handleActions_Inr [OF run this] show ?thesis by (simp only: seq sch)
qed

lemma apply_blocks_snoc:
  "apply_blocks h isReplay hvn (bms @ [bm]) w0 = (Inr (), w') \<longleftrightarrow>
     (\<exists>w1. apply_blocks h isReplay hvn bms w0 = (Inr (), w1)
        \<and> applyBlock h (fst bm) isReplay hvn (snd bm) w1 = (Inr (), w'))"
proof (induction bms arbitrary: w0)
  case Nil
  then show ?case by (cases bm) (simp add: bind_exc_Inr_iff)
next
  case (Cons bm' bms)
  then show ?case by (cases bm') (auto simp: bind_exc_Inr_iff)
qed

lemma apply_blocks_append:
  "apply_blocks h isReplay hvn (xs @ ys) w0 = (Inr (), w') \<longleftrightarrow>
     (\<exists>wm. apply_blocks h isReplay hvn xs w0 = (Inr (), wm) \<and> apply_blocks h isReplay hvn ys wm = (Inr (), w'))"
proof (induction xs arbitrary: w0)
  case Nil
  then show ?case by simp
next
  case (Cons bm xs)
  then show ?case by (cases bm) (auto simp: bind_exc_Inr_iff)
qed

lemma apply_blocks_wf:
  "wf_world w0 \<Longrightarrow> apply_blocks h isReplay hvn bms w0 = (Inr (), w1) \<Longrightarrow> wf_world w1"
proof (induction bms arbitrary: w0)
  case Nil
  then show ?case by simp
next
  case (Cons bm bms)
  then show ?case by (cases bm) (auto simp: bind_exc_Inr_iff intro: applyBlock_wf)
qed

lemma apply_blocks_keys:
  "schemas w0 (dbSchema h) = Some tb0 \<Longrightarrow> apply_blocks h isReplay hvn bms w0 = (Inr (), w1) \<Longrightarrow>
     \<exists>tb1. schemas w1 (dbSchema h) = Some tb1 \<and> next_txid w0 \<le> next_txid w1
       \<and> map fst (block_number_txid tb1) =
          map fst (block_number_txid tb0) @ map (\<lambda>bm. blockNumber (blockInfo (fst bm))) bms"
proof (induction bms arbitrary: w0 tb0)
  case Nil
  then show ?case by simp
next
  case (Cons bm bms)
  then obtain w' where a: "applyBlock h (fst bm) isReplay hvn (snd bm) w0 = (Inr (), w')"
    and rest: "apply_blocks h isReplay hvn bms w' = (Inr (), w1)"
    by (cases bm) (auto simp: bind_exc_Inr_iff)
  from applyBlock_Inr_tables [OF a Cons.prems(1)] obtain tb' where
    "schemas w' (dbSchema h) = Some tb'"
    "block_number_txid tb' = block_number_txid tb0 @ [(blockNumber (blockInfo (fst bm)), next_txid w0)]"
    by auto
  moreover from applyBlock_eff [OF a] have "next_txid w' = Suc (next_txid w0)" by (simp add: eff_def)
  ultimately show ?case using Cons.IH [OF _ rest] by fastforce
qed

text \<open>A run that starts with the cursor row at id 1 keeps it there, and leaves in it the
  last block of the run.\<close>

lemma apply_blocks_cursor:
  assumes "schemas w0 (dbSchema h) = Some tb0" and "map_of (index_state tb0) 1 \<noteq> None"
  shows "apply_blocks h isReplay hvn bms w0 = (Inr (), w1) \<Longrightarrow>
     \<exists>tb1. schemas w1 (dbSchema h) = Some tb1 \<and> map_of (index_state tb1) 1 \<noteq> None
       \<and> (bms \<noteq> [] \<longrightarrow> map_of (index_state tb1) 1 =
            Some \<lparr>block_number = blockNumber (blockInfo (fst (last bms))),
                  block_hash = blockHash (blockInfo (fst (last bms))),
                  is_replay = isReplay, handler_version_name = hvn\<rparr>)"
proof (induction bms arbitrary: w1 rule: rev_induct)
  case Nil
  with assms show ?case by simp
next
  case (snoc bm bms)
  from snoc.prems obtain wm where runm: "apply_blocks h isReplay hvn bms w0 = (Inr (), wm)"
    and a: "applyBlock h (fst bm) isReplay hvn (snd bm) wm = (Inr (), w1)"
    by (auto simp: apply_blocks_snoc)
  from snoc.IH [OF runm] obtain tbm where tbm: "schemas wm (dbSchema h) = Some tbm"
    and one: "map_of (index_state tbm) 1 \<noteq> None"
    by blast
  from applyBlock_Inr_tables [OF a tbm] one show ?case by auto
qed

text \<open>The transaction body of \<open>applyBlock\<close> commits whenever the schema exists, the
  callback returns its writes, the block's number is new and the cursor row can be
  written.\<close>

lemma handleActions_total:
  assumes "schemas w s = Some tb" and "mutate ctx (rows tb) = Inr ws"
    and "blockNumber (blockInfo block) \<notin> set (map fst (block_number_txid tb))"
    and "map_of (index_state tb) 1 \<noteq> None \<or> Suc (id_seq w s) \<notin> set (map fst (index_state tb))"
  shows "\<exists>w'. handleActions mutate block isReplay hvn (t, s) ctx w = (Inr (), w')"
proof -
  from assms(1) obtain w2 where wr: "write_rows t s ws w = (Inr (), w2)"
    using write_rows_total [of w s t ws] by auto
  from write_rows_frame [OF wr] have
    fr: "map_option bookkeeping (schemas w2 s) = map_option bookkeeping (schemas w s)"
    and seq: "id_seq w2 = id_seq w" by auto
  with assms(1) obtain tb2 where tb2: "schemas w2 s = Some tb2" "index_state tb2 = index_state tb"
    "block_number_txid tb2 = block_number_txid tb"
    by (cases "schemas w2 s") (auto simp: bookkeeping_def)
  from updateIndexState_total [OF tb2(1), of block t isReplay hvn ctx] tb2 seq assms(3,4)
  obtain w3 where "updateIndexState (t, s) block isReplay hvn ctx w2 = (Inr (), w3)" by auto
  moreover from assms(1,2) wr have "run_mutation mutate (t, s) ctx w = (Inr (), w2)"
    by (simp add: run_mutation_def tables_of_def bind_exc_def)
  ultimately show ?thesis by (auto simp: handleActions_def bind_exc_def)
qed

lemma id_seq_run_mutation [seq_ops]: "run_mutation mutate db ctx x = (r, x') \<Longrightarrow> id_seq x s \<le> id_seq x' s"
  unfolding run_mutation_def by (elim id_seq_bind) (auto dest: seq_ops split: sum.splits)

lemma id_seq_updateIndexState [seq_ops]:
  "updateIndexState db block isReplay hvn ctx x = (r, x') \<Longrightarrow> id_seq x s \<le> id_seq x' s"
  unfolding updateIndexState_def Let_def by (elim id_seq_bind) (auto dest: seq_ops)

lemma id_seq_applyBlock [seq_ops]:
  "applyBlock h block isReplay hvn mutate x = (r, x') \<Longrightarrow> id_seq x s \<le> id_seq x' s"
  unfolding applyBlock_eq handleActions_def
  by (elim id_seq_with_transaction id_seq_bind) (auto dest: seq_ops)

section \<open>Properties of the apply engine\<close>

text \<open>C3 (atomicity): when \<open>applyBlock\<close> fails, for whatever reason (the callback threw,
  a key was taken, the schema is missing), no table and no audit record it wrote survives:
  the tables of every schema and the audit log are as they were before the call.\<close>

theorem applyBlock_atomic:
  "applyBlock h block isReplay hvn mutate w = (Inl e, w') \<Longrightarrow>
     schemas w' = schemas w \<and> audit_log w' = audit_log w"
  unfolding applyBlock_eq by (rule with_transaction_Inl)

text \<open>C4 (application error): an error the mutation callback throws is re-thrown unchanged,
  after the transaction is rolled back; only its identifier has been consumed.\<close>

theorem applyBlock_application_error:
  "schemas w (dbSchema h) = Some tb \<Longrightarrow> mutate (next_txid w) (rows tb) = Inl msg \<Longrightarrow>
     applyBlock h block isReplay hvn mutate w =
       (Inl (ApplicationError msg), w\<lparr>next_txid := Suc (next_txid w)\<rparr>)"
  by (simp add: applyBlock_eq with_transaction_def handleActions_def run_mutation_def tables_of_def
      bind_exc_def abort_tx_def)

text \<open>C5 (the recorded identifier): a block applied successfully gets exactly one new row in
  \<open>_block_number_txid\<close>, holding its number and the identifier of its transaction, and
  every change the block made is in the audit log under that identifier.\<close>

theorem applyBlock_records_txid:
  assumes "applyBlock h block isReplay hvn mutate w = (Inr (), w')"
    and "schemas w (dbSchema h) = Some tb"
  shows "\<exists>tb' cs. schemas w' (dbSchema h) = Some tb'
     \<and> block_number_txid tb' = block_number_txid tb @ [(blockNumber (blockInfo block), next_txid w)]
     \<and> apply_changes cs (schemas w) = Inr (schemas w')
     \<and> audit_log w' = audit_log w @ tag (next_txid w) cs"
proof -
  from applyBlock_Inr_tables [OF assms] obtain tb' where
    "schemas w' (dbSchema h) = Some tb'"
    "block_number_txid tb' = block_number_txid tb @ [(blockNumber (blockInfo block), next_txid w)]"
    by auto
  moreover from applyBlock_eff [OF assms(1)] obtain cs where
    "apply_changes cs (schemas w) = Inr (schemas w')" "audit_log w' = audit_log w @ tag (next_txid w) cs"
    by (auto simp: eff_def)
  ultimately show ?thesis by auto
qed

text \<open>C6 (cursor): after a successful \<open>applyBlock\<close>, \<open>loadIndexState\<close> returns the block's
  number and hash and the flags passed in, provided the cursor row sits at id 1 or the
  serial id has never been drawn (a fresh schema). The proviso is needed: see
  \<open>cursor_lost_after_rollback_to_genesis\<close>.\<close>

theorem applyBlock_loadIndexState:
  assumes "applyBlock h block isReplay hvn mutate w = (Inr (), w')"
    and "schemas w (dbSchema h) = Some tb"
    and "map_of (index_state tb) 1 \<noteq> None \<or> id_seq w (dbSchema h) = 0"
  shows "loadIndexState h w' =
     (Inr \<lparr>mi_blockNumber = blockNumber (blockInfo block), mi_blockHash = blockHash (blockInfo block),
           mi_handlerVersionName = hvn, mi_isReplay = isReplay\<rparr>, w')"
proof -
  have "(if map_of (index_state tb) 1 = None then Suc (id_seq w (dbSchema h)) else 1) = 1"
    using assms(3) by auto
  with applyBlock_Inr_tables [OF assms(1,2)] obtain tb' where
    "schemas w' (dbSchema h) = Some tb'"
    "map_of (index_state tb') 1 = Some \<lparr>block_number = blockNumber (blockInfo block),
        block_hash = blockHash (blockInfo block), is_replay = isReplay, handler_version_name = hvn\<rparr>"
    by (auto simp: fun_eq_iff)
  from loadIndexState_found [OF this] show ?thesis by (simp add: to_MigrationIndexState_def)
qed

text \<open>C10 (progress): \<open>applyBlock\<close> commits whenever the schema exists, the mutation
  callback returns its writes, the block's number is not yet in \<open>_block_number_txid\<close>,
  and the cursor row either exists at id 1 or can be inserted at the next serial id.\<close>

theorem applyBlock_succeeds:
  assumes "schemas w (dbSchema h) = Some tb" and "mutate (next_txid w) (rows tb) = Inr ws"
    and "blockNumber (blockInfo block) \<notin> set (map fst (block_number_txid tb))"
    and "map_of (index_state tb) 1 \<noteq> None \<or> Suc (id_seq w (dbSchema h)) \<notin> set (map fst (index_state tb))"
  shows "\<exists>w'. applyBlock h block isReplay hvn mutate w = (Inr (), w')"
proof -
  let ?w1 = "w\<lparr>next_txid := Suc (next_txid w)\<rparr>"
  from assms(1) have "schemas ?w1 (dbSchema h) = Some tb" by simp
  from handleActions_total [OF this, of mutate "next_txid w" ws block isReplay hvn "next_txid w"] assms(2-4)
  show ?thesis by (simp add: applyBlock_Inr_iff)
qed

end
