(* ===== verification/Rollback.thy ===== *)
theory Rollback
  imports Transaction
begin

text \<open>
  The Rollback Engine, \<open>rollbackTo\<close> of \<open>MassiveActionHandler.ts\<close> (lines 88-104):
  query \<open>_block_number_txid\<close> for the rows above the target block, highest block
  first (\<open>blockNum\<close> is the source's parameter \<open>blockNumber\<close>, whose name the
  block header field takes here), and for each print a line and call cyanaudit's \<open>fn_undo_transaction\<close> on
  its transaction identifier; print a last line when the loop is done. The undo of a
  transaction also reverts its writes to the two bookkeeping tables, which is how the
  rows above the target disappear: the code issues no delete of its own.
\<close>

fun rollback_loop :: "(nat \<times> txid) list \<Rightarrow> ('k, 'v, unit) op" where
  "rollback_loop [] = ret ()"
| "rollback_loop ((rollbackNumber, txid) # rest) =
     bind_exc (console_info (RollingBack rollbackNumber)) (\<lambda>_.
       bind_exc (fn_undo_transaction txid) (\<lambda>_. rollback_loop rest))"

definition rollbackTo :: "handler \<Rightarrow> nat \<Rightarrow> ('k, 'v, unit) op" where
  "rollbackTo h blockNum =
     bind_exc (where_block_number_gt (schemaInstance h) blockNum) (\<lambda>blockNumberTxIds.
       bind_exc (rollback_loop blockNumberTxIds) (\<lambda>_. console_info RollbackComplete))"

text \<open>The states the loop passes through are not the states the forward run passed
  through: each undo adds audit records and draws an identifier. What the loop needs of a
  state \<open>w\<close> standing for a forward state \<open>w1\<close> is that the tables are the same and
  that every transaction of the forward run has the same recorded changes.\<close>

definition agrees :: "('k, 'v) world \<Rightarrow> ('k, 'v) world \<Rightarrow> bool" where
  "agrees w w1 \<longleftrightarrow> schemas w = schemas w1 \<and> next_txid w1 \<le> next_txid w
     \<and> (\<forall>t < next_txid w1. txn_changes t (audit_log w) = txn_changes t (audit_log w1))"

text \<open>The same relation restricted to one schema, for runs in which other handlers'
  transactions write other schemas between this handler's blocks.\<close>

definition agrees_on :: "schema_name \<Rightarrow> ('k, 'v) world \<Rightarrow> ('k, 'v) world \<Rightarrow> bool" where
  "agrees_on s w w1 \<longleftrightarrow> schemas w s = schemas w1 s \<and> next_txid w1 \<le> next_txid w
     \<and> (\<forall>t < next_txid w1. txn_changes t (audit_log w) = txn_changes t (audit_log w1))"

text \<open>A later world whose audit log extends this one's only with records of transactions
  that began later.\<close>

definition log_extends :: "('k, 'v) world \<Rightarrow> ('k, 'v) world \<Rightarrow> bool" where
  "log_extends w w' \<longleftrightarrow> next_txid w \<le> next_txid w'
     \<and> (\<exists>ys. audit_log w' = audit_log w @ ys \<and> (\<forall>e \<in> set ys. next_txid w \<le> fst e))"

declare rollbackTo_def [eval_defs]

section \<open>Lemmas\<close>

lemma agrees_refl: "agrees w w"
  by (simp add: agrees_def)

lemma agrees_console: "agrees w w1 \<Longrightarrow> agrees (w\<lparr>console := l\<rparr>) w1"
  by (simp add: agrees_def)

lemma agrees_iff: "agrees w w1 \<longleftrightarrow> schemas w = schemas w1 \<and> agrees_on s w w1"
  by (auto simp: agrees_def agrees_on_def)

text \<open>Undoing the last block of a forward run, from any state that agrees on the block's
  schema with the state after it, puts that schema back as it was before the block and
  leaves every other schema alone.\<close>

lemma undo_applied_block_on:
  assumes wf: "wf_world wm" and a: "applyBlock h block isReplay hvn mutate wm = (Inr (), w1)"
    and ag: "agrees_on (dbSchema h) w w1"
  shows "\<exists>wu. fn_undo_transaction (next_txid wm) w = (Inr (), wu) \<and> agrees_on (dbSchema h) wu wm
     \<and> schemas wu = (schemas w)(dbSchema h := schemas wm (dbSchema h)) \<and> console wu = console w"
proof -
  let ?t = "next_txid wm" and ?s = "dbSchema h"
  from applyBlock_eff [OF a] obtain cs where cs: "logged_run cs (schemas wm)"
    "apply_changes cs (schemas wm) = Inr (schemas w1)" "audit_log w1 = audit_log wm @ tag ?t cs"
    "list_all (\<lambda>sc. fst sc = ?s) cs" "next_txid w1 = Suc ?t"
    by (auto simp: eff_def)
  from wf have fresh: "\<And>t. ?t \<le> t \<Longrightarrow> txn_changes t (audit_log wm) = []"
    by (auto simp: wf_world_def intro!: txn_changes_fresh)
  from ag cs(5) have "txn_changes ?t (audit_log w) = txn_changes ?t (audit_log w1)"
    by (simp add: agrees_on_def)
  with cs(3) fresh have tc: "txn_changes ?t (audit_log w) = cs" by simp
  from wf have wfS: "wf_schemas (schemas wm)" by (simp add: wf_world_def)
  from ag have "schemas w ?s = schemas w1 ?s" by (simp add: agrees_on_def)
  from apply_inverse_changes_local [where ?S2.0 = "schemas w" and s = ?s, OF wfS cs(1,2,4) this] tc
  have undo: "fn_undo_transaction ?t w = (Inr (), w\<lparr>next_txid := Suc (next_txid w),
      schemas := (schemas w)(?s := schemas wm ?s), audit_log := audit_log w @ tag (next_txid w) (inverse_changes cs)\<rparr>)"
    by (simp add: fn_undo_transaction_Inr)
  have "\<forall>t < ?t. txn_changes t (audit_log w) = txn_changes t (audit_log wm)"
  proof (intro allI impI)
    fix t assume "t < ?t"
    with ag cs(5) have "txn_changes t (audit_log w) = txn_changes t (audit_log w1)"
      by (simp add: agrees_on_def)
    with cs(3) \<open>t < ?t\<close> show "txn_changes t (audit_log w) = txn_changes t (audit_log wm)" by simp
  qed
  with ag cs(5) have "agrees_on ?s (w\<lparr>next_txid := Suc (next_txid w), schemas := (schemas w)(?s := schemas wm ?s),
      audit_log := audit_log w @ tag (next_txid w) (inverse_changes cs)\<rparr>) wm"
    by (auto simp: agrees_on_def)
  with undo show ?thesis by auto
qed

text \<open>Undoing the last block of a forward run, from any state that agrees with the state
  after it, gives a state that agrees with the state before it.\<close>

lemma undo_applied_block:
  assumes wf: "wf_world wm" and a: "applyBlock h block isReplay hvn mutate wm = (Inr (), w1)"
    and ag: "agrees w w1"
  shows "\<exists>wu. fn_undo_transaction (next_txid wm) w = (Inr (), wu) \<and> agrees wu wm \<and> console wu = console w"
proof -
  from ag have sch: "schemas w = schemas w1" and agh: "agrees_on (dbSchema h) w w1"
    by (simp_all add: agrees_iff [of _ _ "dbSchema h"])
  from undo_applied_block_on [OF wf a agh] obtain wu where
    u: "fn_undo_transaction (next_txid wm) w = (Inr (), wu)" "agrees_on (dbSchema h) wu wm"
      "schemas wu = (schemas w)(dbSchema h := schemas wm (dbSchema h))" "console wu = console w"
    by blast
  from applyBlock_eff [OF a] have "\<forall>s'. s' \<noteq> dbSchema h \<longrightarrow> schemas w1 s' = schemas wm s'"
    by (auto dest: eff_other_schemas)
  with u(3) sch have "schemas wu = schemas wm" by (auto simp: fun_eq_iff)
  with u show ?thesis by (auto simp: agrees_iff [of _ _ "dbSchema h"])
qed

text \<open>The rows of the blocks a forward run added, read highest first, come out in the
  reverse order of the run.\<close>

lemma apply_blocks_query_snoc:
  assumes tb0: "schemas w0 (dbSchema h) = Some tb0"
    and below: "\<forall>b \<in> set (map fst (block_number_txid tb0)). b \<le> T"
    and runm: "apply_blocks h isReplay hvn bms w0 = (Inr (), wm)"
    and inc: "sorted_wrt (<) (map (\<lambda>bm. blockNumber (blockInfo (fst bm))) (bms @ [bm]))"
    and above: "T < blockNumber (blockInfo (fst bm))"
    and a: "applyBlock h (fst bm) isReplay hvn (snd bm) wm = (Inr (), w1)"
  shows "\<exists>tbm tb1. schemas wm (dbSchema h) = Some tbm \<and> schemas w1 (dbSchema h) = Some tb1
     \<and> rows_above_desc T (block_number_txid tb1) =
         (blockNumber (blockInfo (fst bm)), next_txid wm) # rows_above_desc T (block_number_txid tbm)"
proof -
  from apply_blocks_keys [OF tb0 runm] obtain tbm where tbm: "schemas wm (dbSchema h) = Some tbm"
    and keys: "map fst (block_number_txid tbm) =
      map fst (block_number_txid tb0) @ map (\<lambda>bm. blockNumber (blockInfo (fst bm))) bms"
    by blast
  from applyBlock_Inr_tables [OF a tbm] obtain tb1 where tb1: "schemas w1 (dbSchema h) = Some tb1"
    "block_number_txid tb1 = block_number_txid tbm @ [(blockNumber (blockInfo (fst bm)), next_txid wm)]"
    by auto
  from keys below inc above have "\<forall>k \<in> set (map fst (block_number_txid tbm)). k < blockNumber (blockInfo (fst bm))"
    by (auto simp: sorted_wrt_append)
  with tb1(2) above have "rows_above_desc T (block_number_txid tb1) =
      (blockNumber (blockInfo (fst bm)), next_txid wm) # rows_above_desc T (block_number_txid tbm)"
    by (simp add: rows_above_desc_snoc)
  with tbm tb1(1) show ?thesis by blast
qed

lemma rollback_loop_restores:
  assumes wf0: "wf_world w0" and tb0: "schemas w0 (dbSchema h) = Some tb0"
    and below: "\<forall>b \<in> set (map fst (block_number_txid tb0)). b \<le> T"
  shows "apply_blocks h isReplay hvn bms w0 = (Inr (), w1)
    \<Longrightarrow> sorted_wrt (<) (map (\<lambda>bm. blockNumber (blockInfo (fst bm))) bms)
    \<Longrightarrow> \<forall>bm \<in> set bms. T < blockNumber (blockInfo (fst bm))
    \<Longrightarrow> agrees w w1
    \<Longrightarrow> \<exists>tb1 w'. schemas w1 (dbSchema h) = Some tb1
       \<and> rollback_loop (rows_above_desc T (block_number_txid tb1)) w = (Inr (), w')
       \<and> schemas w' = schemas w0
       \<and> console w' = console w @ map RollingBack (rev (map (\<lambda>bm. blockNumber (blockInfo (fst bm))) bms))"
proof (induction bms arbitrary: w1 w rule: rev_induct)
  case Nil
  then have "w1 = w0" by simp
  with Nil.prems(4) tb0 below show ?case by (auto simp: rows_above_desc_none agrees_def)
next
  case (snoc bm bms)
  from snoc.prems(1) obtain wm where runm: "apply_blocks h isReplay hvn bms w0 = (Inr (), wm)"
    and a: "applyBlock h (fst bm) isReplay hvn (snd bm) wm = (Inr (), w1)"
    by (auto simp: apply_blocks_snoc)
  from apply_blocks_query_snoc [OF tb0 below runm snoc.prems(2) _ a] snoc.prems(3) obtain tbm tb1 where
    tbm: "schemas wm (dbSchema h) = Some tbm" and tb1: "schemas w1 (dbSchema h) = Some tb1"
    and q: "rows_above_desc T (block_number_txid tb1) =
         (blockNumber (blockInfo (fst bm)), next_txid wm) # rows_above_desc T (block_number_txid tbm)"
    by auto
  let ?wc = "w\<lparr>console := console w @ [RollingBack (blockNumber (blockInfo (fst bm)))]\<rparr>"
  from snoc.prems(4) have "agrees ?wc w1" by (rule agrees_console)
  from undo_applied_block [OF apply_blocks_wf [OF wf0 runm] a this] obtain wu where
    undo: "fn_undo_transaction (next_txid wm) ?wc = (Inr (), wu)" and agu: "agrees wu wm"
    and cu: "console wu = console ?wc"
    by blast
  from snoc.prems(2,3) have "sorted_wrt (<) (map (\<lambda>bm. blockNumber (blockInfo (fst bm))) bms)"
    and "\<forall>bm \<in> set bms. T < blockNumber (blockInfo (fst bm))"
    by (auto simp: sorted_wrt_append)
  from snoc.IH [OF runm this agu] tbm obtain w' where
    loop: "rollback_loop (rows_above_desc T (block_number_txid tbm)) wu = (Inr (), w')"
    and "schemas w' = schemas w0"
    and "console w' = console wu @ map RollingBack (rev (map (\<lambda>bm. blockNumber (blockInfo (fst bm))) bms))"
    by auto
  moreover from loop undo have "rollback_loop (rows_above_desc T (block_number_txid tb1)) w = (Inr (), w')"
    by (simp add: q console_info_def bind_exc_def)
  ultimately show ?case using tb1 cu by auto
qed

lemma rollback_loop_wf:
  "wf_world w \<Longrightarrow> rollback_loop rs w = (r, w') \<Longrightarrow>
     wf_world w' \<and> (r = Inr () \<longrightarrow> console w' = console w @ map (\<lambda>x. RollingBack (fst x)) rs)"
proof (induction rs arbitrary: w r)
  case Nil
  then show ?case by simp
next
  case (Cons x rs)
  obtain b t where x: "x = (b, t)" by fastforce
  let ?wc = "w\<lparr>console := console w @ [RollingBack b]\<rparr>"
  from Cons.prems(1) have wfc: "wf_world ?wc" by simp
  obtain r1 w1 where u: "fn_undo_transaction t ?wc = (r1, w1)" by fastforce
  from fn_undo_transaction_wf [OF wfc u] have wf1: "wf_world w1" and c1: "console w1 = console ?wc" by auto
  show ?case
  proof (cases r1)
    case (Inl e)
    with Cons.prems(2) u have "r = Inl e" "w' = w1" by (simp_all add: x console_info_def bind_exc_def)
    with wf1 show ?thesis by simp
  next
    case (Inr v)
    with Cons.prems(2) u have "rollback_loop rs w1 = (r, w')"
      by (simp add: x console_info_def bind_exc_def)
    from Cons.IH [OF wf1 this] c1 show ?thesis by (simp add: x)
  qed
qed

lemma rollbackTo_wf:
  assumes "wf_world w" "rollbackTo h T w = (r, w')"
  shows "wf_world w'"
proof -
  have q: "where_block_number_gt s n w = (r, w') \<Longrightarrow> wf_world w \<Longrightarrow> wf_world w'" for s n w r w'
    by (auto simp: where_block_number_gt_def tables_of_def bind_exc_def split: option.splits)
  have l: "rollback_loop rs w = (r, w') \<Longrightarrow> wf_world w \<Longrightarrow> wf_world w'" for rs w r w'
    using rollback_loop_wf by blast
  have c: "console_info ln w = (r, w') \<Longrightarrow> wf_world w \<Longrightarrow> wf_world w'" for ln w r w'
    by (auto simp: console_info_def)
  from assms(2,1) show ?thesis unfolding rollbackTo_def
    by (elim bind_exc_inv [where P = wf_world, rotated 3]) (auto elim: q l c)
qed

text \<open>A failed undo leaves the tables and the audit log as they were; its transaction
  was rolled back.\<close>

lemma fn_undo_transaction_Inl:
  "fn_undo_transaction t w = (Inl e, w') \<Longrightarrow> schemas w' = schemas w \<and> audit_log w' = audit_log w"
  unfolding fn_undo_transaction_def by (rule with_transaction_Inl)

text \<open>Where a failing loop stopped: the rows before the failing one were undone, each in
  its own committed transaction, and the failing row's line was printed before its undo
  threw.\<close>

lemma rollback_loop_Inl:
  "rollback_loop rs w = (Inl e, w') \<Longrightarrow>
     \<exists>ps x qs wm. rs = ps @ x # qs \<and> rollback_loop ps w = (Inr (), wm)
       \<and> fn_undo_transaction (snd x) (wm\<lparr>console := console wm @ [RollingBack (fst x)]\<rparr>) = (Inl e, w')"
proof (induction rs arbitrary: w)
  case Nil
  then show ?case by simp
next
  case (Cons x rs)
  obtain b t where x: "x = (b, t)" by fastforce
  let ?wc = "w\<lparr>console := console w @ [RollingBack b]\<rparr>"
  obtain r1 w1 where u: "fn_undo_transaction t ?wc = (r1, w1)" by fastforce
  show ?case
  proof (cases r1)
    case (Inl e1)
    with Cons.prems u have "fn_undo_transaction t ?wc = (Inl e, w')"
      by (simp add: x console_info_def bind_exc_def)
    then show ?thesis by (intro exI [of _ "[]"] exI [of _ x] exI [of _ rs] exI [of _ w]) (simp add: x)
  next
    case (Inr v)
    with Cons.prems u have "rollback_loop rs w1 = (Inl e, w')"
      by (simp add: x console_info_def bind_exc_def)
    from Cons.IH [OF this] obtain ps y qs wm where "rs = ps @ y # qs"
      and "rollback_loop ps w1 = (Inr (), wm)"
      and "fn_undo_transaction (snd y) (wm\<lparr>console := console wm @ [RollingBack (fst y)]\<rparr>) = (Inl e, w')"
      by blast
    moreover from this(2) u Inr have "rollback_loop (x # ps) w = (Inr (), wm)"
      by (simp add: x console_info_def bind_exc_def)
    ultimately show ?thesis by (intro exI [of _ "x # ps"]) auto
  qed
qed

lemma id_seq_rollback_loop [seq_ops]: "rollback_loop rs x = (r, x') \<Longrightarrow> id_seq x s \<le> id_seq x' s"
proof (induction rs arbitrary: x r x')
  case Nil
  then show ?case by simp
next
  case (Cons nt rs)
  then show ?case by (cases nt) (auto elim!: id_seq_bind dest: seq_ops)
qed

lemma id_seq_rollbackTo [seq_ops]: "rollbackTo h m x = (r, x') \<Longrightarrow> id_seq x s \<le> id_seq x' s"
  unfolding rollbackTo_def where_block_number_gt_def by (elim id_seq_bind) (auto dest: seq_ops)

section \<open>Lemmas: logs that only grow\<close>

lemma log_extends_refl [simp]: "log_extends w w"
  by (auto simp: log_extends_def)

lemma log_extends_trans: "log_extends w1 w2 \<Longrightarrow> log_extends w2 w3 \<Longrightarrow> log_extends w1 w3"
  by (fastforce simp: log_extends_def)

lemma log_extends_bind:
  assumes "bind_exc m f w = (r, w')"
    and "\<And>x r x'. m x = (r, x') \<Longrightarrow> log_extends x x'"
    and "\<And>a x r x'. f a x = (r, x') \<Longrightarrow> log_extends x x'"
  shows "log_extends w w'"
  using assms(1)
proof (elim bind_exc_inv [where P = "log_extends w", rotated 3])
  show "\<And>x r x'. log_extends w x \<Longrightarrow> m x = (r, x') \<Longrightarrow> log_extends w x'"
    using assms(2) log_extends_trans by blast
  show "\<And>a x r x'. log_extends w x \<Longrightarrow> f a x = (r, x') \<Longrightarrow> log_extends w x'"
    using assms(3) log_extends_trans by blast
qed simp

lemma log_extends_fn_undo_transaction: "fn_undo_transaction u x = (r, x') \<Longrightarrow> log_extends x x'"
  by (fastforce simp: log_extends_def dest: fn_undo_transaction_log)

lemma log_extends_console_info: "console_info l x = (r, x') \<Longrightarrow> log_extends x x'"
  by (auto simp: console_info_def log_extends_def)

lemma log_extends_rollback_loop: "rollback_loop rs x = (r, x') \<Longrightarrow> log_extends x x'"
proof (induction rs arbitrary: x r x')
  case Nil
  then show ?case by simp
next
  case (Cons nt rs)
  then show ?case
    by (cases nt) (auto elim!: log_extends_bind dest: log_extends_console_info log_extends_fn_undo_transaction)
qed

lemma log_extends_rollbackTo: "rollbackTo h m x = (r, x') \<Longrightarrow> log_extends x x'"
  unfolding rollbackTo_def where_block_number_gt_def tables_of_def
  by (elim log_extends_bind)
    (auto dest: log_extends_console_info log_extends_rollback_loop split: option.splits)

lemma log_extends_txn_changes:
  "log_extends w w' \<Longrightarrow> t < next_txid w \<Longrightarrow> txn_changes t (audit_log w') = txn_changes t (audit_log w)"
  by (fastforce simp: log_extends_def txn_changes_def filter_empty_conv)

text \<open>A committed undo: one new transaction whose audited changes are the inverses of
  the undone transaction's changes, last first.\<close>

lemma fn_undo_transaction_Inr_log:
  "fn_undo_transaction t x = (Inr (), x') \<Longrightarrow>
     audit_log x' = audit_log x @ tag (next_txid x) (inverse_changes (txn_changes t (audit_log x)))
     \<and> next_txid x' = Suc (next_txid x)"
  unfolding fn_undo_transaction_def with_transaction_Inr_iff
  by (auto dest: log_writes_Inr_effect)

text \<open>What a successful loop writes to the audit log: for the rows in the order given,
  one undo transaction each, under the next identifiers in turn, each recording the
  inverse of the changes of the row's transaction.\<close>

lemma rollback_loop_log:
  "rollback_loop rs w = (Inr (), w') \<Longrightarrow> \<forall>r \<in> set rs. snd r < next_txid w \<Longrightarrow>
     audit_log w' = audit_log w @ concat (map (\<lambda>(u, r). tag u (inverse_changes (txn_changes (snd r) (audit_log w))))
                                           (zip [next_txid w..<next_txid w + length rs] rs))
     \<and> next_txid w' = next_txid w + length rs"
proof (induction rs arbitrary: w)
  case Nil
  then show ?case by simp
next
  case (Cons x rs)
  obtain b t where x: "x = (b, t)" by fastforce
  let ?wc = "w\<lparr>console := console w @ [RollingBack b]\<rparr>"
  from Cons.prems(1) obtain w1 where u: "fn_undo_transaction t ?wc = (Inr (), w1)"
    and rest: "rollback_loop rs w1 = (Inr (), w')"
    by (auto simp: x console_info_def bind_exc_Inr_iff)
  from fn_undo_transaction_Inr_log [OF u] have
    log1: "audit_log w1 = audit_log w @ tag (next_txid w) (inverse_changes (txn_changes t (audit_log w)))"
    and nt1: "next_txid w1 = Suc (next_txid w)" by simp_all
  from Cons.prems(2) nt1 have "\<forall>r \<in> set rs. snd r < next_txid w1" by auto
  from Cons.IH [OF rest this] have
    log': "audit_log w' = audit_log w1 @ concat (map (\<lambda>(u, r). tag u (inverse_changes (txn_changes (snd r) (audit_log w1))))
                                           (zip [next_txid w1..<next_txid w1 + length rs] rs))"
    and nt': "next_txid w' = next_txid w1 + length rs" by simp_all
  have same: "txn_changes (snd r) (audit_log w1) = txn_changes (snd r) (audit_log w)" if "r \<in> set rs" for r
    using Cons.prems(2) that log1 by fastforce
  have "[next_txid w..<next_txid w + length (x # rs)] = next_txid w # [next_txid w1..<next_txid w1 + length rs]"
    using nt1 upt_conv_Cons [of "next_txid w" "next_txid w + Suc (length rs)"] by simp
  with log' log1 nt' nt1 same show ?case
    by (auto simp: x intro!: arg_cong [where f = concat] map_cong dest!: set_zip_rightD)
qed

text \<open>Rolling a fresh schema back to block 0 after one block succeeds and gives back the
  tables as they were before the block.\<close>

lemma rollback_genesis_one_block:
  assumes "wf_world w0" and "schemas w0 (dbSchema h) = Some tb0" and "block_number_txid tb0 = []"
    and "0 < blockNumber (blockInfo b1)"
    and "applyBlock h b1 isReplay hvn m w0 = (Inr (), w1)"
  shows "\<exists>w2. rollbackTo h 0 w1 = (Inr (), w2) \<and> schemas w2 = schemas w0"
proof -
  from assms(5) have run: "apply_blocks h isReplay hvn [(b1, m)] w0 = (Inr (), w1)"
    by (simp add: bind_exc_def)
  from rollback_loop_restores [OF assms(1,2), of 0 isReplay hvn "[(b1, m)]" w1 w1] assms(3,4) run agrees_refl
  obtain tb1 w' where "schemas w1 (dbSchema h) = Some tb1"
    and "rollback_loop (rows_above_desc 0 (block_number_txid tb1)) w1 = (Inr (), w')"
    and "schemas w' = schemas w0"
    by auto
  then show ?thesis
    by (auto simp: rollbackTo_def where_block_number_gt_def tables_of_def bind_exc_def console_info_def)
qed

text \<open>The cursor row after one block, a rollback to block 0 and one more block: the
  serial id drawn for the first cursor row is not given back by the undo, so the second
  row is inserted at an id above 1.\<close>

lemma cursor_row_moved:
  assumes "wf_world w0" and "schemas w0 (dbSchema h) = Some tb0"
    and "block_number_txid tb0 = []" and "index_state tb0 = []"
    and "0 < blockNumber (blockInfo b1)"
    and "applyBlock h b1 isReplay1 hvn1 m1 w0 = (Inr (), w1)"
    and "rollbackTo h 0 w1 = (Inr (), w2)"
    and "applyBlock h b2 isReplay2 hvn2 m2 w2 = (Inr (), w3)"
  shows "\<exists>tb3. schemas w3 (dbSchema h) = Some tb3 \<and> map_of (index_state tb3) 1 = None
     \<and> map fst (block_number_txid tb3) = [blockNumber (blockInfo b2)]"
proof -
  let ?s = "dbSchema h"
  from rollback_genesis_one_block [OF assms(1-3,5,6)] assms(7) have sch2: "schemas w2 = schemas w0" by auto
  from applyBlock_Inr_tables [OF assms(6,2)] assms(4) have "id_seq w1 ?s = Suc (id_seq w0 ?s)" by auto
  with id_seq_rollbackTo [OF assms(7), of ?s] have seq: "0 < id_seq w2 ?s" by simp
  from sch2 assms(2) have tb2: "schemas w2 ?s = Some tb0" by simp
  from applyBlock_Inr_tables [OF assms(8) tb2] assms(3,4) seq show ?thesis by auto
qed

section \<open>Properties of the rollback engine\<close>

text \<open>C1 (rollback restores): take a well-formed world whose \<open>_block_number_txid\<close> rows are
  all at or below \<open>T\<close>, and apply blocks above \<open>T\<close> in increasing order. Then
  \<open>rollbackTo T\<close> succeeds, and afterwards every table of every schema is exactly as it
  was before the first of those blocks: the cursor, the block/transaction rows and the
  handler's own rows.\<close>

theorem rollbackTo_restores:
  assumes "wf_world w0" and "schemas w0 (dbSchema h) = Some tb0"
    and "\<forall>b \<in> set (map fst (block_number_txid tb0)). b \<le> T"
    and "apply_blocks h isReplay hvn bms w0 = (Inr (), w1)"
    and "sorted_wrt (<) (map (\<lambda>bm. blockNumber (blockInfo (fst bm))) bms)"
    and "\<forall>bm \<in> set bms. T < blockNumber (blockInfo (fst bm))"
  shows "\<exists>w2. rollbackTo h T w1 = (Inr (), w2) \<and> schemas w2 = schemas w0"
proof -
  from rollback_loop_restores [OF assms(1-3), of isReplay hvn bms w1 w1] assms(4-6) agrees_refl
  obtain tb1 w' where "schemas w1 (dbSchema h) = Some tb1"
    "rollback_loop (rows_above_desc T (block_number_txid tb1)) w1 = (Inr (), w')" "schemas w' = schemas w0"
    by blast
  then show ?thesis
    by (auto simp: rollbackTo_def where_block_number_gt_def tables_of_def bind_exc_def console_info_def)
qed

text \<open>C2 (undo order): a successful \<open>rollbackTo T\<close> undoes the rows of
  \<open>_block_number_txid\<close> above \<open>T\<close>, each exactly once and in strictly decreasing block
  number: for each such row, highest block first, it prints the rollback line and calls
  \<open>cyanaudit.fn_undo_transaction\<close> on the row's transaction, which commits one new
  transaction recording the inverse of that transaction's changes; the completion line
  follows. The rows' transactions are earlier than the call (as the driver's are).\<close>

theorem rollbackTo_undo_order:
  assumes "wf_world w" and "schemas w (dbSchema h) = Some tb"
    and "\<forall>r \<in> set (block_number_txid tb). snd r < next_txid w"
    and "rollbackTo h T w = (Inr (), w')"
  shows "\<exists>rs. sorted_wrt (>) (map fst rs) \<and> set rs = {r \<in> set (block_number_txid tb). T < fst r}
     \<and> console w' = console w @ map (\<lambda>r. RollingBack (fst r)) rs @ [RollbackComplete]
     \<and> audit_log w' = audit_log w @ concat (map (\<lambda>(u, r). tag u (inverse_changes (txn_changes (snd r) (audit_log w))))
                                            (zip [next_txid w..<next_txid w + length rs] rs))
     \<and> next_txid w' = next_txid w + length rs"
proof -
  let ?rs = "rows_above_desc T (block_number_txid tb)"
  from assms(2,4) obtain w1 where l: "rollback_loop ?rs w = (Inr (), w1)"
    and w': "w' = w1\<lparr>console := console w1 @ [RollbackComplete]\<rparr>"
    by (auto simp: rollbackTo_def where_block_number_gt_def tables_of_def bind_exc_def console_info_def
        split: prod.splits sum.splits)
  from rollback_loop_wf [OF assms(1) l] have "console w1 = console w @ map (\<lambda>x. RollingBack (fst x)) ?rs"
    by blast
  moreover from assms(3) have "\<forall>r \<in> set ?rs. snd r < next_txid w" by (simp add: set_rows_above_desc)
  note log = rollback_loop_log [OF l this]
  moreover from assms(1,2) have "sorted_wrt (>) (map fst ?rs)"
    by (intro rows_above_desc_sorted) (auto simp: wf_world_def wf_schemas_def wf_tables_def)
  moreover have "set ?rs = {r \<in> set (block_number_txid tb). T < fst r}"
    by (rule set_rows_above_desc)
  ultimately show ?thesis using w' by (intro exI [of _ ?rs]) simp
qed


text \<open>C13 (round trip, spec section 8): from a well-formed world whose cursor row sits at
  id 1 and whose \<open>_block_number_txid\<close> rows are at or below \<open>T\<close>, apply blocks above
  \<open>T\<close>, roll back to \<open>T\<close>, and apply a non-empty list of blocks again, with other
  payloads and flags. Then \<open>_block_number_txid\<close> holds the old rows and one row per
  re-applied block, none of the undone rows, and the cursor reads back as the last
  re-applied block.\<close>

theorem rollback_reapply_roundtrip:
  assumes "wf_world w0" and "schemas w0 (dbSchema h) = Some tb0"
    and "map_of (index_state tb0) 1 \<noteq> None"
    and "\<forall>b \<in> set (map fst (block_number_txid tb0)). b \<le> T"
    and "apply_blocks h isReplay hvn bms w0 = (Inr (), w1)"
    and "sorted_wrt (<) (map (\<lambda>bm. blockNumber (blockInfo (fst bm))) bms)"
    and "\<forall>bm \<in> set bms. T < blockNumber (blockInfo (fst bm))"
    and "rollbackTo h T w1 = (Inr (), w2)"
    and "apply_blocks h isReplay' hvn' bms' w2 = (Inr (), w3)" and "bms' \<noteq> []"
  shows "\<exists>tb3. schemas w3 (dbSchema h) = Some tb3
     \<and> map fst (block_number_txid tb3) =
         map fst (block_number_txid tb0) @ map (\<lambda>bm. blockNumber (blockInfo (fst bm))) bms'
     \<and> loadIndexState h w3 =
         (Inr \<lparr>mi_blockNumber = blockNumber (blockInfo (fst (last bms'))),
               mi_blockHash = blockHash (blockInfo (fst (last bms'))),
               mi_handlerVersionName = hvn', mi_isReplay = isReplay'\<rparr>, w3)"
proof -
  from rollback_loop_restores [OF assms(1,2,4) assms(5-7) agrees_refl] obtain tb1 w' where
    "schemas w1 (dbSchema h) = Some tb1"
    "rollback_loop (rows_above_desc T (block_number_txid tb1)) w1 = (Inr (), w')" "schemas w' = schemas w0"
    by blast
  with assms(8) have "schemas w2 = schemas w0"
    by (auto simp: rollbackTo_def where_block_number_gt_def tables_of_def bind_exc_def console_info_def)
  with assms(2) have tb2: "schemas w2 (dbSchema h) = Some tb0" by simp
  from apply_blocks_keys [OF tb2 assms(9)] obtain tb3 where tb3: "schemas w3 (dbSchema h) = Some tb3"
    and keys: "map fst (block_number_txid tb3) =
         map fst (block_number_txid tb0) @ map (\<lambda>bm. blockNumber (blockInfo (fst bm))) bms'"
    by blast
  from apply_blocks_cursor [OF tb2 assms(3) assms(9)] tb3 assms(10) have
    "map_of (index_state tb3) 1 = Some \<lparr>block_number = blockNumber (blockInfo (fst (last bms'))),
         block_hash = blockHash (blockInfo (fst (last bms'))), is_replay = isReplay', handler_version_name = hvn'\<rparr>"
    by auto
  with tb3 keys show ?thesis by (auto simp: loadIndexState_found to_MigrationIndexState_def)
qed

text \<open>C20 (failure path, spec 4.2 and 7): when \<open>rollbackTo T\<close> fails, the error is the one
  cyanaudit's undo of some row threw, re-thrown as is. The rows above that one were undone
  and stay undone, each in its own committed transaction; the failing row's undo left no
  trace; the last line printed names the failing block and the completion line is never
  printed. The rollback is left partially applied, as the spec says, not undone as a
  whole.\<close>

theorem rollbackTo_partial_failure:
  assumes "wf_world w" and "schemas w (dbSchema h) = Some tb" and "rollbackTo h T w = (Inl e, w')"
  shows "\<exists>ps x qs wm. rows_above_desc T (block_number_txid tb) = ps @ x # qs
     \<and> rollback_loop ps w = (Inr (), wm)
     \<and> fn_undo_transaction (snd x) (wm\<lparr>console := console wm @ [RollingBack (fst x)]\<rparr>) = (Inl e, w')
     \<and> schemas w' = schemas wm \<and> audit_log w' = audit_log wm
     \<and> console w' = console wm @ [RollingBack (fst x)]"
proof -
  from assms(2,3) have "rollback_loop (rows_above_desc T (block_number_txid tb)) w = (Inl e, w')"
    by (auto simp: rollbackTo_def where_block_number_gt_def tables_of_def bind_exc_def console_info_def
        split: prod.splits sum.splits)
  from rollback_loop_Inl [OF this] obtain ps x qs wm where
    split: "rows_above_desc T (block_number_txid tb) = ps @ x # qs"
    and loop: "rollback_loop ps w = (Inr (), wm)"
    and undo: "fn_undo_transaction (snd x) (wm\<lparr>console := console wm @ [RollingBack (fst x)]\<rparr>) = (Inl e, w')"
    by blast
  from rollback_loop_wf [OF assms(1) loop] have "wf_world (wm\<lparr>console := console wm @ [RollingBack (fst x)]\<rparr>)"
    by simp
  from fn_undo_transaction_wf [OF this undo] fn_undo_transaction_Inl [OF undo]
  have "schemas w' = schemas wm" "audit_log w' = audit_log wm" "console w' = console wm @ [RollingBack (fst x)]"
    by simp_all
  with split loop undo show ?thesis by blast
qed

end
