(* ===== verification/Engine.thy ===== *)
theory Engine
  imports Rollback
begin

text \<open>
  The handler's two entry points as the operations of one engine, and runs of them on a
  shared database. A deployment may run several \<open>MassiveActionHandler\<close> instances,
  each configured with its own \<open>dbSchema\<close> (\<open>MassiveActionHandler.ts\<close> lines 8-22),
  on one Postgres database with one cyanaudit log; its driver (demux, not in this
  repository) calls \<open>applyBlock\<close> (through \<open>handleWithState\<close>) and \<open>rollbackTo\<close>
  in some order. \<open>run_ops\<close> is such a call sequence, stopping at the first error. The
  spec (section 9) leaves open whether a rollback in one schema is isolated from the
  others, since \<open>cyanaudit.fn_undo_transaction\<close> is schema-global;
  \<open>rollbackTo_isolated\<close> settles it for interleaved block applications, and
  \<open>rollbackTo_isolated_rollbacks\<close> for interleavings in which the other handlers also
  roll back, given that the record rows name block transactions (\<open>rows_own\<close>).
\<close>

datatype ('a, 'k, 'v) engine_op =
    ApplyBlockOp handler "'a block" bool string "('k, 'v) mutation"
  | RollbackToOp handler nat

fun run_op :: "('a, 'k, 'v) engine_op \<Rightarrow> ('k, 'v, unit) op" where
  "run_op (ApplyBlockOp h block isReplay hvn mutate) = applyBlock h block isReplay hvn mutate"
| "run_op (RollbackToOp h blockNum) = rollbackTo h blockNum"

fun run_ops :: "('a, 'k, 'v) engine_op list \<Rightarrow> ('k, 'v, unit) op" where
  "run_ops [] = ret ()"
| "run_ops (eo # eos) = bind_exc (run_op eo) (\<lambda>_. run_ops eos)"

text \<open>The schema an operation acts on, the block number it names, and whether it applies
  a block.\<close>

fun op_schema :: "('a, 'k, 'v) engine_op \<Rightarrow> schema_name" where
  "op_schema (ApplyBlockOp h block isReplay hvn mutate) = dbSchema h"
| "op_schema (RollbackToOp h blockNum) = dbSchema h"

fun op_block_number :: "('a, 'k, 'v) engine_op \<Rightarrow> nat" where
  "op_block_number (ApplyBlockOp h block isReplay hvn mutate) = blockNumber (blockInfo block)"
| "op_block_number (RollbackToOp h blockNum) = blockNum"

fun is_apply :: "('a, 'k, 'v) engine_op \<Rightarrow> bool" where
  "is_apply (ApplyBlockOp h block isReplay hvn mutate) = True"
| "is_apply (RollbackToOp h blockNum) = False"

text \<open>When other handlers also roll back in between, what keeps a rollback in one schema
  from reaching another is that every \<open>_block_number_txid\<close> row names a block's
  transaction: one that began earlier, wrote its own schema only, and deleted no such row.
  \<open>rows_own\<close> says so of every schema; the engine keeps it (\<open>rows_own_run_ops\<close>).\<close>

fun is_bnt_delete :: "('k, 'v) change \<Rightarrow> bool" where
  "is_bnt_delete (BlockTxidDelete b t) = True"
| "is_bnt_delete c = False"

definition block_txn :: "schema_name \<Rightarrow> txid \<Rightarrow> ('k, 'v) world \<Rightarrow> bool" where
  "block_txn s t w \<longleftrightarrow> t < next_txid w
     \<and> list_all (\<lambda>sc. fst sc = s \<and> \<not> is_bnt_delete (snd sc)) (txn_changes t (audit_log w))"

definition rows_own :: "('k, 'v) world \<Rightarrow> bool" where
  "rows_own w \<longleftrightarrow>
     (\<forall>s tb. schemas w s = Some tb \<longrightarrow> list_all (\<lambda>r. block_txn s (snd r) w) (block_number_txid tb))"

text \<open>A step that changes schema \<open>s\<close> only, and there only removes
  \<open>_block_number_txid\<close> rows.\<close>

definition shrinks_only :: "schema_name \<Rightarrow> ('k, 'v) world \<Rightarrow> ('k, 'v) world \<Rightarrow> bool" where
  "shrinks_only s w w' \<longleftrightarrow> (\<forall>s'. s' \<noteq> s \<longrightarrow> schemas w' s' = schemas w s')
     \<and> (\<forall>tb'. schemas w' s = Some tb' \<longrightarrow>
          (\<exists>tb. schemas w s = Some tb \<and> set (block_number_txid tb') \<subseteq> set (block_number_txid tb)))"

section \<open>Lemmas\<close>

lemma run_ops_snoc:
  "run_ops (eos @ [eo]) w0 = (Inr (), w') \<longleftrightarrow>
     (\<exists>w1. run_ops eos w0 = (Inr (), w1) \<and> run_op eo w1 = (Inr (), w'))"
proof (induction eos arbitrary: w0)
  case Nil
  then show ?case by (simp add: bind_exc_Inr_iff)
next
  case (Cons eo' eos)
  then show ?case by (auto simp: bind_exc_Inr_iff)
qed

lemma run_op_wf: "wf_world w \<Longrightarrow> run_op eo w = (r, w') \<Longrightarrow> wf_world w'"
  by (cases eo) (auto intro: applyBlock_wf rollbackTo_wf)

lemma run_ops_wf: "wf_world w0 \<Longrightarrow> run_ops eos w0 = (r, w1) \<Longrightarrow> wf_world w1"
proof (induction eos arbitrary: w0)
  case Nil
  then show ?case by simp
next
  case (Cons eo eos)
  obtain r1 wm where m: "run_op eo w0 = (r1, wm)" by fastforce
  from run_op_wf [OF Cons.prems(1) m] have "wf_world wm" .
  with Cons m show ?case by (cases r1) (auto simp: bind_exc_def)
qed

lemma agrees_on_refl: "agrees_on s w w"
  by (simp add: agrees_on_def)

lemma agrees_on_console: "agrees_on s w w1 \<Longrightarrow> agrees_on s (w\<lparr>console := l\<rparr>) w1"
  by (simp add: agrees_on_def)

text \<open>A block another handler applied, on another schema, is invisible to the relation.\<close>

lemma agrees_on_other_block:
  assumes "applyBlock h block isReplay hvn mutate wm = (Inr (), w1)" and "dbSchema h \<noteq> s"
    and "agrees_on s w w1"
  shows "agrees_on s w wm"
proof -
  note e = applyBlock_eff [OF assms(1)]
  from e obtain cs where "audit_log w1 = audit_log wm @ tag (next_txid wm) cs"
    and "next_txid w1 = Suc (next_txid wm)"
    by (auto simp: eff_def)
  moreover from eff_other_schemas [OF e] assms(2) have "schemas w1 s = schemas wm s" by auto
  ultimately show ?thesis using assms(3) by (auto simp: agrees_on_def)
qed

section \<open>Lemmas: rollbacks of other handlers\<close>

lemma logged_run_no_bnt_delete: "logged_run cs S \<Longrightarrow> list_all (\<lambda>sc. \<not> is_bnt_delete (snd sc)) cs"
proof (induction cs arbitrary: S)
  case Nil
  then show ?case by simp
next
  case (Cons sc cs)
  then show ?case by (cases sc, rename_tac s c, case_tac c) (auto split: option.splits sum.splits)
qed

lemma inverse_changes_no_bnt_insert:
  "list_all (\<lambda>sc. \<not> is_bnt_delete (snd sc)) cs \<Longrightarrow>
     list_all (\<lambda>sc. \<forall>b t. snd sc \<noteq> BlockTxidInsert b t) (inverse_changes cs)"
proof (induction cs)
  case Nil
  then show ?case by simp
next
  case (Cons sc cs)
  then show ?case by (cases sc, rename_tac s c, case_tac c) auto
qed

text \<open>Changes that insert no \<open>_block_number_txid\<close> row leave, in each schema, a subset of
  the rows there were, and create no schema.\<close>

lemma apply_changes_bnt_subset:
  "apply_changes cs S = Inr S' \<Longrightarrow> list_all (\<lambda>sc. \<forall>b t. snd sc \<noteq> BlockTxidInsert b t) cs \<Longrightarrow>
     S' s = Some tb' \<Longrightarrow> \<exists>tb. S s = Some tb \<and> set (block_number_txid tb') \<subseteq> set (block_number_txid tb)"
proof (induction cs arbitrary: S)
  case Nil
  then show ?case by simp
next
  case (Cons sc cs)
  obtain s1 c where sc: "sc = (s1, c)" by fastforce
  from Cons.prems(1) sc obtain tb1 tb1' where t1: "S s1 = Some tb1" and c: "apply_change c tb1 = Inr tb1'"
    and rest: "apply_changes cs (S(s1 \<mapsto> tb1')) = Inr S'"
    by (auto split: option.splits sum.splits)
  from Cons.prems(2) sc have ni: "\<forall>b t. c \<noteq> BlockTxidInsert b t"
    and ni': "list_all (\<lambda>sc. \<forall>b t. snd sc \<noteq> BlockTxidInsert b t) cs" by simp_all
  have sub: "set (block_number_txid tb1') \<subseteq> set (block_number_txid tb1)"
    using c ni by (cases c) (auto simp: del_key_def split: if_splits)
  from Cons.IH [OF rest ni' Cons.prems(3)] obtain tbx where
    tbx: "(S(s1 \<mapsto> tb1')) s = Some tbx" "set (block_number_txid tb') \<subseteq> set (block_number_txid tbx)"
    by blast
  with t1 sub show ?case by (cases "s = s1") auto
qed

lemma fn_undo_transaction_cases:
  assumes "fn_undo_transaction t x = (r, x')"
  shows "schemas x' = schemas x \<or> apply_changes (inverse_changes (txn_changes t (audit_log x))) (schemas x) = Inr (schemas x')"
proof -
  let ?cs = "inverse_changes (txn_changes t (audit_log x))"
  obtain r1 x2 where lw: "log_writes (next_txid x) ?cs (x\<lparr>next_txid := Suc (next_txid x)\<rparr>) = (r1, x2)"
    by fastforce
  show ?thesis
  proof (cases r1)
    case (Inl e)
    with assms lw show ?thesis by (auto simp: fn_undo_transaction_def with_transaction_def abort_tx_def)
  next
    case (Inr u)
    with lw have "apply_changes ?cs (schemas x) = Inr (schemas x2)" by (cases u) (auto dest: log_writes_Inr_effect)
    with Inr assms lw show ?thesis by (simp add: fn_undo_transaction_def with_transaction_def)
  qed
qed

lemma shrinks_only_refl [simp]: "shrinks_only s w w"
  by (auto simp: shrinks_only_def)

lemma shrinks_only_trans:
  assumes "shrinks_only s w1 w2" and "shrinks_only s w2 w3"
  shows "shrinks_only s w1 w3"
  unfolding shrinks_only_def
proof (intro conjI allI impI)
  fix s' assume "s' \<noteq> s"
  with assms show "schemas w3 s' = schemas w1 s'" by (simp add: shrinks_only_def)
next
  fix tb3 assume "schemas w3 s = Some tb3"
  with assms(2) obtain tb2 where "schemas w2 s = Some tb2"
    and s2: "set (block_number_txid tb3) \<subseteq> set (block_number_txid tb2)"
    by (auto simp: shrinks_only_def)
  with assms(1) obtain tb1 where "schemas w1 s = Some tb1"
    and "set (block_number_txid tb2) \<subseteq> set (block_number_txid tb1)"
    by (auto simp: shrinks_only_def)
  with s2 show "\<exists>tb1. schemas w1 s = Some tb1 \<and> set (block_number_txid tb3) \<subseteq> set (block_number_txid tb1)"
    by blast
qed

text \<open>Undoing a block's transaction of schema \<open>s\<close> changes that schema only, and there
  only removes rows.\<close>

lemma fn_undo_block_txn:
  assumes "fn_undo_transaction t x = (r, x')"
    and "list_all (\<lambda>sc. fst sc = s \<and> \<not> is_bnt_delete (snd sc)) (txn_changes t (audit_log x))"
  shows "shrinks_only s x x'"
  using fn_undo_transaction_cases [OF assms(1)]
proof
  assume "schemas x' = schemas x"
  then show ?thesis by (simp add: shrinks_only_def)
next
  let ?cs = "txn_changes t (audit_log x)"
  assume app: "apply_changes (inverse_changes ?cs) (schemas x) = Inr (schemas x')"
  from assms(2) have "list_all (\<lambda>sc. fst sc = s) ?cs"
    and nd: "list_all (\<lambda>sc. \<not> is_bnt_delete (snd sc)) ?cs"
    by (simp_all add: list_all_iff)
  then have own: "list_all (\<lambda>sc. fst sc = s) (inverse_changes ?cs)" by simp
  from apply_changes_other_schema [OF app own] apply_changes_bnt_subset [OF app inverse_changes_no_bnt_insert [OF nd]]
  show ?thesis by (auto simp: shrinks_only_def)
qed

lemma block_txn_log_extends: "block_txn s t w \<Longrightarrow> log_extends w w' \<Longrightarrow> block_txn s t w'"
  by (auto simp: block_txn_def log_extends_txn_changes) (simp add: log_extends_def)

lemma rollback_loop_other:
  "rollback_loop rs x = (r, x') \<Longrightarrow> log_extends w x \<Longrightarrow> \<forall>r \<in> set rs. block_txn s (snd r) w \<Longrightarrow>
     shrinks_only s x x'"
proof (induction rs arbitrary: x r x')
  case Nil
  then show ?case by simp
next
  case (Cons nt rs)
  obtain n t where nt: "nt = (n, t)" by fastforce
  let ?xc = "x\<lparr>console := console x @ [RollingBack n]\<rparr>"
  obtain r1 x1 where u: "fn_undo_transaction t ?xc = (r1, x1)" by fastforce
  from Cons.prems(2) have ext: "log_extends w ?xc" by (simp add: log_extends_def)
  from Cons.prems(3) nt have bt: "block_txn s t w" by simp
  with log_extends_txn_changes [OF ext] have "txn_changes t (audit_log ?xc) = txn_changes t (audit_log w)"
    by (simp add: block_txn_def)
  with bt have "list_all (\<lambda>sc. fst sc = s \<and> \<not> is_bnt_delete (snd sc)) (txn_changes t (audit_log ?xc))"
    by (simp add: block_txn_def)
  from fn_undo_block_txn [OF u this] have sh1: "shrinks_only s x x1" by (simp add: shrinks_only_def)
  show ?case
  proof (cases r1)
    case (Inl e)
    with Cons.prems(1) u nt sh1 show ?thesis by (simp add: console_info_def bind_exc_def)
  next
    case (Inr v)
    with Cons.prems(1) u nt have rest: "rollback_loop rs x1 = (r, x')"
      by (simp add: console_info_def bind_exc_def)
    from ext log_extends_fn_undo_transaction [OF u] have "log_extends w x1" by (rule log_extends_trans)
    from Cons.IH [OF rest this] Cons.prems(3) have "shrinks_only s x1 x'" by simp
    with sh1 show ?thesis by (rule shrinks_only_trans)
  qed
qed

text \<open>A rollback changes its own schema only, and there only removes rows.\<close>

lemma rollbackTo_shrinks_only:
  assumes "rollbackTo h m x = (r, x')" and "rows_own x"
  shows "shrinks_only (dbSchema h) x x'"
proof (cases "schemas x (dbSchema h)")
  case None
  with assms(1) show ?thesis by (simp add: rollbackTo_def where_block_number_gt_def tables_of_def bind_exc_def)
next
  case (Some tb)
  let ?rs = "rows_above_desc m (block_number_txid tb)"
  obtain r1 xl where l: "rollback_loop ?rs x = (r1, xl)" by fastforce
  from assms(2) Some have "\<forall>r \<in> set ?rs. block_txn (dbSchema h) (snd r) x"
    by (auto simp: rows_own_def list_all_iff set_rows_above_desc)
  from rollback_loop_other [OF l log_extends_refl this] have "shrinks_only (dbSchema h) x xl" .
  with assms(1) Some l show ?thesis
    by (cases r1) (auto simp: rollbackTo_def where_block_number_gt_def tables_of_def bind_exc_def
        console_info_def shrinks_only_def)
qed

lemma rows_own_rollbackTo:
  assumes "rollbackTo h m x = (r, x')" and "rows_own x"
  shows "rows_own x'"
  unfolding rows_own_def
proof (intro allI impI)
  fix s tb' assume tb': "schemas x' s = Some tb'"
  from log_extends_rollbackTo [OF assms(1)] have ext: "log_extends x x'" .
  from rollbackTo_shrinks_only [OF assms] have sh: "shrinks_only (dbSchema h) x x'" .
  obtain tb where tb: "schemas x s = Some tb"
    and sub: "set (block_number_txid tb') \<subseteq> set (block_number_txid tb)"
  proof (cases "s = dbSchema h")
    case True
    with sh tb' show ?thesis by (auto simp: shrinks_only_def intro: that)
  next
    case False
    with sh tb' have "schemas x s = Some tb'" by (simp add: shrinks_only_def)
    then show ?thesis by (rule that) simp
  qed
  from assms(2) tb have "\<forall>r \<in> set (block_number_txid tb). block_txn s (snd r) x"
    by (simp add: rows_own_def list_all_iff)
  with sub have "\<forall>r \<in> set (block_number_txid tb'). block_txn s (snd r) x" by blast
  then show "list_all (\<lambda>r. block_txn s (snd r) x') (block_number_txid tb')"
    by (simp add: list_all_iff block_txn_log_extends [OF _ ext])
qed

lemma rows_own_applyBlock:
  assumes wf: "wf_world w" and a: "applyBlock h block isReplay hvn mutate w = (Inr (), w')" and own: "rows_own w"
  shows "rows_own w'"
  unfolding rows_own_def
proof (intro allI impI)
  let ?s = "dbSchema h" and ?t = "next_txid w"
  fix s tb' assume tb': "schemas w' s = Some tb'"
  from applyBlock_eff [OF a] obtain cs where run: "logged_run cs (schemas w)"
    and log': "audit_log w' = audit_log w @ tag ?t cs" and cs_own: "list_all (\<lambda>sc. fst sc = ?s) cs"
    and nt': "next_txid w' = Suc ?t"
    by (auto simp: eff_def)
  from log' nt' have ext: "log_extends w w'" by (auto simp: log_extends_def tag_def)
  have old: "block_txn s (snd r) w'" if "schemas w s = Some tb" "r \<in> set (block_number_txid tb)" for tb r
  proof -
    from own that have "block_txn s (snd r) w" by (simp add: rows_own_def list_all_iff)
    from block_txn_log_extends [OF this ext] show ?thesis .
  qed
  show "list_all (\<lambda>r. block_txn s (snd r) w') (block_number_txid tb')"
  proof (cases "s = ?s")
    case False
    with eff_other_schemas [OF applyBlock_eff [OF a]] tb' have "schemas w s = Some tb'" by simp
    with old show ?thesis by (simp add: list_all_iff)
  next
    case True
    from a obtain tb where tb: "schemas w ?s = Some tb"
      by (cases "schemas w ?s") (auto simp: applyBlock_Inr_iff handleActions_def bind_exc_Inr_iff
          dest!: run_mutation_Inr)
    from applyBlock_Inr_tables [OF a tb] True tb' have
      bnt': "block_number_txid tb' = block_number_txid tb @ [(blockNumber (blockInfo block), ?t)]" by auto
    from wf have "txn_changes ?t (audit_log w) = []" by (auto simp: wf_world_def intro!: txn_changes_fresh)
    with log' have "txn_changes ?t (audit_log w') = cs" by simp
    with cs_own logged_run_no_bnt_delete [OF run] nt' True have "block_txn s ?t w'"
      by (simp add: block_txn_def list_all_iff)
    with old [of tb] tb True bnt' show ?thesis by (auto simp: list_all_iff)
  qed
qed

lemma rows_own_run_ops: "wf_world w0 \<Longrightarrow> rows_own w0 \<Longrightarrow> run_ops eos w0 = (Inr (), w1) \<Longrightarrow> rows_own w1"
proof (induction eos arbitrary: w0)
  case Nil
  then show ?case by simp
next
  case (Cons eo eos)
  from Cons.prems(3) obtain wm where m: "run_op eo w0 = (Inr (), wm)" and rest: "run_ops eos wm = (Inr (), w1)"
    by (auto simp: bind_exc_Inr_iff)
  from m Cons.prems(1,2) have "rows_own wm"
    by (cases eo) (auto intro: rows_own_applyBlock rows_own_rollbackTo)
  with Cons.IH [OF run_op_wf [OF Cons.prems(1) m] _ rest] show ?case by simp
qed

text \<open>A rollback another handler made, on another schema, is invisible to the relation.\<close>

lemma agrees_on_other_rollback:
  assumes "rollbackTo h m wm = (Inr (), w1)" and "rows_own wm" and "dbSchema h \<noteq> s"
    and "agrees_on s w w1"
  shows "agrees_on s w wm"
proof -
  from rollbackTo_shrinks_only [OF assms(1,2)] assms(3) have "schemas w1 s = schemas wm s"
    by (simp add: shrinks_only_def)
  moreover from log_extends_rollbackTo [OF assms(1)] have ext: "log_extends wm w1" .
  then have "next_txid wm \<le> next_txid w1" by (simp add: log_extends_def)
  moreover have "txn_changes t (audit_log w1) = txn_changes t (audit_log wm)" if "t < next_txid wm" for t
    using log_extends_txn_changes [OF ext that] .
  ultimately show ?thesis using assms(4) by (auto simp: agrees_on_def)
qed


text \<open>The \<open>_block_number_txid\<close> keys of one schema after a run in which that schema
  only applies blocks: the old keys, then the numbers of the blocks applied on that schema,
  in run order. Other schemas may also roll back when the rows are owned.\<close>

lemma run_ops_keys:
  "wf_world w0 \<Longrightarrow> schemas w0 s = Some tb0 \<Longrightarrow> run_ops eos w0 = (Inr (), w1) \<Longrightarrow>
     list_all is_apply eos \<or> rows_own w0 \<Longrightarrow> \<forall>eo \<in> set eos. op_schema eo = s \<longrightarrow> is_apply eo \<Longrightarrow>
     \<exists>tb1. schemas w1 s = Some tb1 \<and> map fst (block_number_txid tb1) =
       map fst (block_number_txid tb0) @ map op_block_number (filter (\<lambda>eo. op_schema eo = s) eos)"
proof (induction eos arbitrary: w0 tb0)
  case Nil
  then show ?case by simp
next
  case (Cons eo eos)
  from Cons.prems(3) obtain w' where m: "run_op eo w0 = (Inr (), w')" and rest: "run_ops eos w' = (Inr (), w1)"
    by (auto simp: bind_exc_Inr_iff)
  have wf': "wf_world w'" by (rule run_op_wf [OF Cons.prems(1) m])
  show ?case
  proof (cases eo)
    case (ApplyBlockOp h block isReplay hvn mutate)
    with m have a: "applyBlock h block isReplay hvn mutate w0 = (Inr (), w')" by simp
    from Cons.prems(4) rows_own_applyBlock [OF Cons.prems(1) a]
    have d: "list_all is_apply eos \<or> rows_own w'" by (auto simp: ApplyBlockOp)
    show ?thesis
    proof (cases "dbSchema h = s")
      case True
      with applyBlock_Inr_tables [OF a] Cons.prems(2) obtain tb' where "schemas w' s = Some tb'"
        "block_number_txid tb' = block_number_txid tb0 @ [(blockNumber (blockInfo block), next_txid w0)]"
        by auto
      with Cons.IH [OF wf' _ rest d] Cons.prems(5) True show ?thesis by (auto simp: ApplyBlockOp)
    next
      case False
      with eff_other_schemas [OF applyBlock_eff [OF a]] Cons.prems(2) have "schemas w' s = Some tb0" by auto
      with Cons.IH [OF wf' _ rest d] Cons.prems(5) False show ?thesis by (auto simp: ApplyBlockOp)
    qed
  next
    case (RollbackToOp h m)
    with Cons.prems(4) have own: "rows_own w0" by simp
    from RollbackToOp m have rb: "rollbackTo h m w0 = (Inr (), w')" by simp
    from RollbackToOp Cons.prems(5) have other: "dbSchema h \<noteq> s" by auto
    from rollbackTo_shrinks_only [OF rb own] other Cons.prems(2) have "schemas w' s = Some tb0"
      by (simp add: shrinks_only_def)
    with Cons.IH [OF wf' _ rest] rows_own_rollbackTo [OF rb own] Cons.prems(5) other
    show ?thesis by (auto simp: RollbackToOp)
  qed
qed

text \<open>The rollback loop over one schema's rows, after a run in which other handlers
  applied blocks on other schemas in between: it restores that schema and leaves every
  other schema as it finds it.\<close>

lemma rollback_loop_isolated:
  assumes wf0: "wf_world w0" and tb0: "schemas w0 s = Some tb0"
    and below: "\<forall>b \<in> set (map fst (block_number_txid tb0)). b \<le> T"
  shows "run_ops eos w0 = (Inr (), w1) \<Longrightarrow> list_all is_apply eos \<or> rows_own w0
    \<Longrightarrow> \<forall>eo \<in> set eos. op_schema eo = s \<longrightarrow> is_apply eo
    \<Longrightarrow> sorted_wrt (<) (map op_block_number (filter (\<lambda>eo. op_schema eo = s) eos))
    \<Longrightarrow> \<forall>eo \<in> set eos. op_schema eo = s \<longrightarrow> T < op_block_number eo
    \<Longrightarrow> agrees_on s w w1
    \<Longrightarrow> \<exists>tb1 w'. schemas w1 s = Some tb1
       \<and> rollback_loop (rows_above_desc T (block_number_txid tb1)) w = (Inr (), w')
       \<and> schemas w' = (schemas w)(s := schemas w0 s)"
proof (induction eos arbitrary: w1 w rule: rev_induct)
  case Nil
  then have "w1 = w0" by simp
  with Nil.prems(6) tb0 below show ?case
    by (auto simp: rows_above_desc_none agrees_on_def fun_upd_idem)
next
  case (snoc eo eos)
  from snoc.prems(1) obtain wm where runm: "run_ops eos w0 = (Inr (), wm)"
    and m: "run_op eo wm = (Inr (), w1)"
    by (auto simp: run_ops_snoc)
  from snoc.prems(2-5) have pre: "list_all is_apply eos \<or> rows_own w0"
    "\<forall>eo \<in> set eos. op_schema eo = s \<longrightarrow> is_apply eo"
    "sorted_wrt (<) (map op_block_number (filter (\<lambda>eo. op_schema eo = s) eos))"
    "\<forall>eo \<in> set eos. op_schema eo = s \<longrightarrow> T < op_block_number eo"
    by (auto simp: sorted_wrt_append)
  show ?case
  proof (cases eo)
    case (RollbackToOp h' m')
    with snoc.prems(2) have own: "rows_own w0" by simp
    from RollbackToOp m have rb: "rollbackTo h' m' wm = (Inr (), w1)" by simp
    from RollbackToOp snoc.prems(3) have other: "dbSchema h' \<noteq> s" by auto
    from rows_own_run_ops [OF wf0 own runm] have ownm: "rows_own wm" .
    from agrees_on_other_rollback [OF rb ownm other snoc.prems(6)] have "agrees_on s w wm" .
    from snoc.IH [OF runm pre this] rollbackTo_shrinks_only [OF rb ownm] other
    show ?thesis by (simp add: shrinks_only_def)
  next
    case (ApplyBlockOp h block isReplay hvn mutate)
    note eo = this
    from m eo have a: "applyBlock h block isReplay hvn mutate wm = (Inr (), w1)" by simp
    show ?thesis
    proof (cases "dbSchema h = s")
      case False
      from agrees_on_other_block [OF a False snoc.prems(6)] have "agrees_on s w wm" .
      from snoc.IH [OF runm pre this] eff_other_schemas [OF applyBlock_eff [OF a]] False
      show ?thesis by auto
    next
      case True
      let ?n = "blockNumber (blockInfo block)"
      from run_ops_keys [OF wf0 tb0 runm pre(1,2)] obtain tbm where tbm: "schemas wm s = Some tbm"
        and keys: "map fst (block_number_txid tbm) =
          map fst (block_number_txid tb0) @ map op_block_number (filter (\<lambda>eo. op_schema eo = s) eos)"
        by blast
      from applyBlock_Inr_tables [OF a] tbm True obtain tb1 where tb1: "schemas w1 s = Some tb1"
        "block_number_txid tb1 = block_number_txid tbm @ [(?n, next_txid wm)]"
        by auto
      from snoc.prems(4,5) True have inc: "\<forall>k \<in> set (map op_block_number (filter (\<lambda>eo. op_schema eo = s) eos)). k < ?n"
        and above: "T < ?n"
        by (auto simp: eo sorted_wrt_append)
      with keys below have "\<forall>k \<in> set (map fst (block_number_txid tbm)). k < ?n" by auto
      with tb1(2) above have q: "rows_above_desc T (block_number_txid tb1) =
          (?n, next_txid wm) # rows_above_desc T (block_number_txid tbm)"
        by (simp add: rows_above_desc_snoc)
      let ?wc = "w\<lparr>console := console w @ [RollingBack ?n]\<rparr>"
      from snoc.prems(6) True have "agrees_on (dbSchema h) ?wc w1" by (simp add: agrees_on_console)
      from undo_applied_block_on [OF run_ops_wf [OF wf0 runm] a this] True obtain wu where
        undo: "fn_undo_transaction (next_txid wm) ?wc = (Inr (), wu)" and agu: "agrees_on s wu wm"
        and su: "schemas wu = (schemas w)(s := schemas wm s)"
        by auto
      from snoc.IH [OF runm pre agu] tbm obtain w' where
        loop: "rollback_loop (rows_above_desc T (block_number_txid tbm)) wu = (Inr (), w')"
        and "schemas w' = (schemas wu)(s := schemas w0 s)"
        by auto
      moreover from loop undo have "rollback_loop (rows_above_desc T (block_number_txid tb1)) w = (Inr (), w')"
        by (simp add: q console_info_def bind_exc_def)
      ultimately show ?thesis using tb1 su by auto
    qed
  qed
qed


section \<open>Properties of the engine\<close>

text \<open>C14 (schema isolation): on one database, let handlers on several schemas apply
  blocks in any interleaving, those on schema \<open>s\<close> of the handler \<open>h\<close> in increasing
  order and above \<open>T\<close>, starting from a well-formed world whose \<open>_block_number_txid\<close>
  rows in \<open>s\<close> are at or below \<open>T\<close>. Then \<open>rollbackTo T\<close> of \<open>h\<close> succeeds, restores
  every table of \<open>s\<close> to what it was before the run, and leaves every other schema
  as the run left it: the schema-global undo reaches only \<open>h\<close>'s transactions.\<close>

theorem rollbackTo_isolated:
  assumes "wf_world w0" and "schemas w0 (dbSchema h) = Some tb0"
    and "\<forall>b \<in> set (map fst (block_number_txid tb0)). b \<le> T"
    and "run_ops eos w0 = (Inr (), w1)" and "list_all is_apply eos"
    and "sorted_wrt (<) (map op_block_number (filter (\<lambda>eo. op_schema eo = dbSchema h) eos))"
    and "\<forall>eo \<in> set eos. op_schema eo = dbSchema h \<longrightarrow> T < op_block_number eo"
  shows "\<exists>w2. rollbackTo h T w1 = (Inr (), w2) \<and> schemas w2 (dbSchema h) = schemas w0 (dbSchema h)
     \<and> (\<forall>s. s \<noteq> dbSchema h \<longrightarrow> schemas w2 s = schemas w1 s)"
proof -
  from assms(5) have d: "list_all is_apply eos \<or> rows_own w0"
    and ap: "\<forall>eo \<in> set eos. op_schema eo = dbSchema h \<longrightarrow> is_apply eo"
    by (simp_all add: list_all_iff)
  from rollback_loop_isolated [OF assms(1-4) d ap assms(6,7) agrees_on_refl] obtain tb1 w' where
    "schemas w1 (dbSchema h) = Some tb1"
    "rollback_loop (rows_above_desc T (block_number_txid tb1)) w1 = (Inr (), w')"
    "schemas w' = (schemas w1)(dbSchema h := schemas w0 (dbSchema h))"
    by blast
  then show ?thesis
    by (auto simp: rollbackTo_def where_block_number_gt_def tables_of_def bind_exc_def console_info_def)
qed

text \<open>C23 (schema isolation, other handlers rolling back too): as C14, but the handlers
  on the other schemas may also roll back, to any block, between the blocks of \<open>h\<close>;
  \<open>h\<close>'s own schema only applies blocks during the run. It suffices that every
  \<open>_block_number_txid\<close> row of the starting database names a block's transaction
  (\<open>rows_own\<close>: it began earlier, wrote its own schema only and deleted no such row),
  which a database without rows satisfies and every operation of the engine keeps
  (\<open>rows_own_run_ops\<close>). Then \<open>rollbackTo T\<close> of \<open>h\<close> still succeeds, restores
  \<open>h\<close>'s schema and leaves every other schema as the run left it.\<close>

theorem rollbackTo_isolated_rollbacks:
  assumes "wf_world w0" and "rows_own w0" and "schemas w0 (dbSchema h) = Some tb0"
    and "\<forall>b \<in> set (map fst (block_number_txid tb0)). b \<le> T"
    and "run_ops eos w0 = (Inr (), w1)"
    and "\<forall>eo \<in> set eos. op_schema eo = dbSchema h \<longrightarrow> is_apply eo"
    and "sorted_wrt (<) (map op_block_number (filter (\<lambda>eo. op_schema eo = dbSchema h) eos))"
    and "\<forall>eo \<in> set eos. op_schema eo = dbSchema h \<longrightarrow> T < op_block_number eo"
  shows "\<exists>w2. rollbackTo h T w1 = (Inr (), w2) \<and> schemas w2 (dbSchema h) = schemas w0 (dbSchema h)
     \<and> (\<forall>s. s \<noteq> dbSchema h \<longrightarrow> schemas w2 s = schemas w1 s)"
proof -
  from assms(2) have d: "list_all is_apply eos \<or> rows_own w0" by simp
  from rollback_loop_isolated [OF assms(1,3,4,5) d assms(6-8) agrees_on_refl] obtain tb1 w' where
    "schemas w1 (dbSchema h) = Some tb1"
    "rollback_loop (rows_above_desc T (block_number_txid tb1)) w1 = (Inr (), w')"
    "schemas w' = (schemas w1)(dbSchema h := schemas w0 (dbSchema h))"
    by blast
  then show ?thesis
    by (auto simp: rollbackTo_def where_block_number_gt_def tables_of_def bind_exc_def console_info_def)
qed

end
