(* ===== verification/Driver.thy ===== *)
theory Driver
  imports Rollback
begin

text \<open>
  The reconciliation driver of the spec (section 2), demux's \<open>AbstractActionHandler\<close>
  (not in this repository), as a labelled step relation. The driver keeps the number of
  the last block it processed in memory (\<open>lastProcessedBlockNumber\<close>); the database is
  the source of truth only when the driver (re)loads it with \<open>loadIndexState\<close>, at start
  and after a rollback. Its environment, the block reader, produces events: the next block
  with the updaters to run on it, a fork below the processed head, or a restart of the
  process. A block that is not the one needed is skipped (the reader is told to seek); an
  error of \<open>applyBlock\<close> leaves the driver where it was, to retry; an error of
  \<open>rollbackTo\<close> is fatal (spec 4.2, 7: operator intervention), so it has no step.
\<close>

datatype ('a, 'k, 'v) driver_event =
    NextBlock "'a block" bool string "('k, 'v) mutation"
  | ForkAt nat
  | Restart

type_synonym ('k, 'v) driver_state = "nat \<times> ('k, 'v) world"

inductive driver_step ::
  "handler \<Rightarrow> ('a, 'k, 'v) driver_event \<Rightarrow> ('k, 'v) driver_state \<Rightarrow> ('k, 'v) driver_state \<Rightarrow> bool"
  for h where
  block_applied: "blockNumber (blockInfo block) = Suc n \<Longrightarrow>
    applyBlock h block isReplay hvn mutate w = (Inr (), w') \<Longrightarrow>
    driver_step h (NextBlock block isReplay hvn mutate) (n, w) (Suc n, w')"
| block_failed: "blockNumber (blockInfo block) = Suc n \<Longrightarrow>
    applyBlock h block isReplay hvn mutate w = (Inl e, w') \<Longrightarrow>
    driver_step h (NextBlock block isReplay hvn mutate) (n, w) (n, w')"
| block_skipped: "blockNumber (blockInfo block) \<noteq> Suc n \<Longrightarrow>
    driver_step h (NextBlock block isReplay hvn mutate) (n, w) (n, w)"
| rolled_back: "m < n \<Longrightarrow> rollbackTo h m w = (Inr (), w1) \<Longrightarrow> loadIndexState h w1 = (Inr c, w2) \<Longrightarrow>
    driver_step h (ForkAt m) (n, w) (mi_blockNumber c, w2)"
| restarted: "loadIndexState h w = (Inr c, w') \<Longrightarrow>
    driver_step h Restart (n, w) (mi_blockNumber c, w')"

text \<open>A run of the driver over a sequence of events.\<close>

inductive driver_run ::
  "handler \<Rightarrow> ('a, 'k, 'v) driver_event list \<Rightarrow> ('k, 'v) driver_state \<Rightarrow> ('k, 'v) driver_state \<Rightarrow> bool"
  for h where
  run_nil: "driver_run h [] s s"
| run_cons: "driver_step h ev s s1 \<Longrightarrow> driver_run h evs s1 s2 \<Longrightarrow> driver_run h (ev # evs) s s2"

inductive_cases driver_step_NextBlockE: "driver_step h (NextBlock block isReplay hvn mutate) s s'"
inductive_cases driver_step_ForkAtE: "driver_step h (ForkAt m) s s'"
inductive_cases driver_step_RestartE: "driver_step h Restart s s'"
inductive_simps driver_run_Nil [simp]: "driver_run h [] s s'"
inductive_simps driver_run_Cons: "driver_run h (ev # evs) s s'"

section \<open>Lemmas\<close>

lemma loadIndexState_state: "loadIndexState h w = (r, w') \<Longrightarrow> w' = w"
  by (auto simp: loadIndexState_def findOne_index_state_def tables_of_def bind_exc_def
      split: option.splits)

text \<open>A committed block's number was not yet in \<open>_block_number_txid\<close>.\<close>

lemma applyBlock_Inr_new_key:
  assumes "wf_world w" "applyBlock h block isReplay hvn mutate w = (Inr (), w')"
    and "schemas w (dbSchema h) = Some tb"
  shows "blockNumber (blockInfo block) \<notin> set (map fst (block_number_txid tb))"
proof -
  from applyBlock_Inr_tables [OF assms(2,3)] obtain tb' where tb': "schemas w' (dbSchema h) = Some tb'"
    "block_number_txid tb' = block_number_txid tb @ [(blockNumber (blockInfo block), next_txid w)]"
    by auto
  from applyBlock_wf [OF assms(1,2)] tb'(1) have "wf_tables tb'"
    by (simp add: wf_world_def wf_schemas_def)
  with tb'(2) show ?thesis by (simp add: wf_tables_def)
qed


text \<open>From a driver at block 0 over a schema whose cursor row is missing at id 1 while
  block 1 is recorded, every step leaves the driver at block 0 and the database's tables
  as they are: the only block it accepts is block 1, whose \<open>_block_number_txid\<close> insert
  collides, and a restart reads the default cursor again.\<close>

lemma driver_step_stuck:
  assumes "driver_step h ev (0, w) (n', w')" and "wf_world w" and "schemas w (dbSchema h) = Some tb"
    and "map_of (index_state tb) 1 = None" and "1 \<in> set (map fst (block_number_txid tb))"
  shows "n' = 0 \<and> wf_world w' \<and> schemas w' = schemas w"
  using assms(1)
proof (cases rule: driver_step.cases)
  case (block_applied block isReplay hvn mutate)
  from block_applied have a: "applyBlock h block isReplay hvn mutate w = (Inr (), w')"
    and one: "blockNumber (blockInfo block) = 1"
    by simp_all
  from applyBlock_Inr_new_key [OF assms(2) a assms(3)] one assms(5) show ?thesis by simp
next
  case (block_failed block isReplay hvn mutate e)
  then have "schemas w' = schemas w" by (auto simp: applyBlock_eq dest: with_transaction_Inl)
  with block_failed assms(2) show ?thesis by (auto intro: applyBlock_wf)
next
  case (restarted c)
  with assms(3,4) have "c = to_MigrationIndexState defaultIndexState" "w' = w"
    by (auto dest: loadIndexState_state simp: loadIndexState_absent)
  with restarted assms(2) show ?thesis by (simp add: defaultIndexState_def to_MigrationIndexState_def)
qed (use assms(2) in auto)


section \<open>Properties of the driver\<close>

text \<open>C15 (finding: the driver never recovers from a lost cursor): take a well-formed
  database whose cursor row is not at id 1 although block 1 is recorded (the state
  \<open>cursor_lost_after_rollback_to_genesis\<close> reaches, see \<open>driver_reaches_lost_cursor\<close>),
  and a driver at block 0 over it. Whatever blocks, forks and restarts follow, the driver
  stays at block 0 and no table of the database changes: no block is ever applied
  again.\<close>

theorem driver_stuck_after_cursor_loss:
  assumes "wf_world w" and "schemas w (dbSchema h) = Some tb"
    and "map_of (index_state tb) 1 = None" and "1 \<in> set (map fst (block_number_txid tb))"
    and "driver_run h evs (0, w) (n', w')"
  shows "n' = 0 \<and> schemas w' = schemas w"
  using assms
proof (induction evs arbitrary: w)
  case Nil
  then show ?case by simp
next
  case (Cons ev evs)
  from Cons.prems(5) obtain s1 where st: "driver_step h ev (0, w) s1" and run: "driver_run h evs s1 (n', w')"
    by (auto simp: driver_run_Cons)
  obtain n1 w1 where s1: "s1 = (n1, w1)" by fastforce
  from driver_step_stuck [OF st [unfolded s1] Cons.prems(1-4)] have
    "n1 = 0" "wf_world w1" "schemas w1 = schemas w" by auto
  with Cons.IH [of w1] Cons.prems(2-4) run s1 show ?case by auto
qed

end
