(* ===== verification/History.thy ===== *)
theory History
  imports Driver
begin

text \<open>
  The spec's invariant of the Index State Store (section 3): every row of
  \<open>_block_number_txid\<close> names a block whose mutations the audit log holds, complete
  and undoable, and the rows form a contiguous run of block numbers from 1, which a
  rollback shortens by a suffix. The history behind the rows is \<open>undo_chain\<close>: a
  sequence of past states of the database, from a base state without rows, in which
  each row's recorded transaction is a faithful run of changes of the handler's schema
  from one state to the next, adding exactly that row and leaving the cursor row at id
  1, if any, naming that block. The driver's reachable states keep it (\<open>driver_inv\<close>),
  and from it a rollback below the head always succeeds and removes exactly the suffix.
\<close>

definition block_step ::
  "schema_name \<Rightarrow> nat \<Rightarrow> txid \<Rightarrow> (schema_name \<rightharpoonup> ('k, 'v) tables) \<Rightarrow> (schema_name \<rightharpoonup> ('k, 'v) tables) \<Rightarrow> bool" where
  "block_step s n t S0 S1 \<longleftrightarrow>
     (case (S0 s, S1 s) of
        (Some tb0, Some tb1) \<Rightarrow> block_number_txid tb1 = block_number_txid tb0 @ [(n, t)]
          \<and> (case map_of (index_state tb1) 1 of None \<Rightarrow> True | Some r \<Rightarrow> block_number r = n)
      | _ \<Rightarrow> False)"

fun undo_chain ::
  "schema_name \<Rightarrow> (txid \<times> schema_name \<times> ('k, 'v) change) list \<Rightarrow> (nat \<times> txid) list
     \<Rightarrow> (schema_name \<rightharpoonup> ('k, 'v) tables) \<Rightarrow> (schema_name \<rightharpoonup> ('k, 'v) tables) \<Rightarrow> bool" where
  "undo_chain s log [] S0 S \<longleftrightarrow> S = S0"
| "undo_chain s log ((n, t) # rs) S0 S \<longleftrightarrow>
     (let cs = txn_changes t log in
      logged_run cs S0 \<and> list_all (\<lambda>sc. fst sc = s) cs \<and>
      (case apply_changes cs S0 of
         Inl e \<Rightarrow> False
       | Inr S1 \<Rightarrow> block_step s n t S0 S1 \<and> undo_chain s log rs S1 S))"

text \<open>Every id of \<open>_index_state\<close> in schema \<open>s\<close> is at most \<open>b\<close>; along a chain, this
  holds of each state it passes through. With \<open>b\<close> the schema's serial sequence, the
  next id \<open>nextval\<close> hands out is free in every one of them, the present state and the
  states a rollback returns to included.\<close>

definition index_ids_below :: "schema_name \<Rightarrow> nat \<Rightarrow> (schema_name \<rightharpoonup> ('k, 'v) tables) \<Rightarrow> bool" where
  "index_ids_below s b S \<longleftrightarrow>
     (case S s of None \<Rightarrow> True | Some tb \<Rightarrow> list_all (\<lambda>i. i \<le> b) (map fst (index_state tb)))"

fun ids_along ::
  "schema_name \<Rightarrow> (txid \<times> schema_name \<times> ('k, 'v) change) list \<Rightarrow> (nat \<times> txid) list
     \<Rightarrow> (schema_name \<rightharpoonup> ('k, 'v) tables) \<Rightarrow> nat \<Rightarrow> bool" where
  "ids_along s log [] S0 b \<longleftrightarrow> index_ids_below s b S0"
| "ids_along s log ((n, t) # rs) S0 b \<longleftrightarrow> index_ids_below s b S0 \<and>
     (case apply_changes (txn_changes t log) S0 of Inl e \<Rightarrow> True | Inr S1 \<Rightarrow> ids_along s log rs S1 b)"

section \<open>The driver's invariant\<close>

text \<open>A driver state keeps the invariant when the database is well-formed, the rows of
  the handler's \<open>_block_number_txid\<close> are the blocks \<open>1..k\<close> with an undoable
  history from a state without rows or cursor, no state of that history holds an
  \<open>_index_state\<close> id the serial sequence has not handed out yet, the rows' transaction
  identifiers increase with their block numbers, and the driver's block is the head \<open>k\<close> or, after a lost cursor, 0.\<close>

fun driver_inv :: "handler \<Rightarrow> ('k, 'v) driver_state \<Rightarrow> bool" where
  "driver_inv h (n, w) \<longleftrightarrow> wf_world w \<and>
     (\<exists>S0 tb0 tb. wf_schemas S0 \<and> S0 (dbSchema h) = Some tb0 \<and> block_number_txid tb0 = []
        \<and> map_of (index_state tb0) 1 = None \<and> schemas w (dbSchema h) = Some tb
        \<and> undo_chain (dbSchema h) (audit_log w) (block_number_txid tb) S0 (schemas w)
        \<and> map fst (block_number_txid tb) = [1..<Suc (length (block_number_txid tb))]
        \<and> ids_along (dbSchema h) (audit_log w) (block_number_txid tb) S0 (id_seq w (dbSchema h))
        \<and> sorted_wrt (<) (map snd (block_number_txid tb))
        \<and> (n = length (block_number_txid tb) \<or> n = 0))"

section \<open>The abstract specification of the block/transaction records\<close>

text \<open>What the spec promises of \<open>BlockTxRecord\<close> (sections 3 and 4.2), as a machine
  on the list of recorded block numbers: a block is appended with the next number, a
  rollback to \<open>m\<close> cuts the list back to its first \<open>m\<close> entries (a suffix, never a hole),
  and anything else leaves it alone. \<open>bnt_keys\<close> reads the list off the database.\<close>

inductive keys_step :: "nat list \<Rightarrow> nat list \<Rightarrow> bool" where
  keys_append: "keys_step ks (ks @ [Suc (length ks)])"
| keys_cut: "m \<le> length ks \<Longrightarrow> keys_step ks (take m ks)"
| keys_same: "keys_step ks ks"

definition bnt_keys :: "handler \<Rightarrow> ('k, 'v) world \<Rightarrow> nat list" where
  "bnt_keys h w = (case schemas w (dbSchema h) of None \<Rightarrow> [] | Some tb \<Rightarrow> map fst (block_number_txid tb))"

section \<open>Lemmas: the chain\<close>

lemma undo_chain_append:
  "undo_chain s log (rs1 @ rs2) S0 S \<longleftrightarrow> (\<exists>Sm. undo_chain s log rs1 S0 Sm \<and> undo_chain s log rs2 Sm S)"
proof (induction rs1 arbitrary: S0)
  case Nil
  then show ?case by simp
next
  case (Cons r rs1)
  then show ?case by (cases r) (auto simp: Let_def split: sum.splits)
qed

lemma undo_chain_cong:
  "\<forall>r \<in> set rs. txn_changes (snd r) log' = txn_changes (snd r) log \<Longrightarrow>
     undo_chain s log' rs S0 S = undo_chain s log rs S0 S"
proof (induction rs arbitrary: S0)
  case Nil
  then show ?case by simp
next
  case (Cons r rs)
  then show ?case by (cases r) (simp add: Let_def split: sum.splits)
qed

lemma undo_chain_tables:
  "undo_chain s log rs S0 S \<Longrightarrow> S0 s = Some tb0 \<Longrightarrow>
     \<exists>tb. S s = Some tb \<and> block_number_txid tb = block_number_txid tb0 @ rs"
proof (induction rs arbitrary: S0 tb0)
  case Nil
  then show ?case by simp
next
  case (Cons r rs)
  obtain n t where r: "r = (n, t)" by fastforce
  from Cons.prems obtain S1 tb1 where "undo_chain s log rs S1 S" "S1 s = Some tb1"
    "block_number_txid tb1 = block_number_txid tb0 @ [(n, t)]"
    by (auto simp: r Let_def block_step_def split: sum.splits option.splits)
  with Cons.IH show ?case by (fastforce simp: r)
qed

lemma undo_chain_wf:
  "undo_chain s log rs S0 S \<Longrightarrow> wf_schemas S0 \<Longrightarrow> wf_schemas S"
proof (induction rs arbitrary: S0)
  case Nil
  then show ?case by simp
next
  case (Cons r rs)
  then show ?case
    by (cases r) (auto simp: Let_def split: sum.splits intro: apply_changes_wf)
qed

text \<open>Every row's transaction has recorded changes: it added the row.\<close>

lemma undo_chain_logged:
  "undo_chain s log rs S0 S \<Longrightarrow> r \<in> set rs \<Longrightarrow> txn_changes (snd r) log \<noteq> []"
proof (induction rs arbitrary: S0)
  case Nil
  then show ?case by simp
next
  case (Cons r' rs)
  obtain n t where r': "r' = (n, t)" by fastforce
  show ?case
  proof (cases "r = r'")
    case True
    with Cons.prems(1) show ?thesis
      by (auto simp: r' Let_def block_step_def split: option.splits)
  next
    case False
    with Cons show ?thesis by (auto simp: r' Let_def split: sum.splits)
  qed
qed


lemma logged_txid_below:
  "wf_world w \<Longrightarrow> txn_changes t (audit_log w) \<noteq> [] \<Longrightarrow> t < next_txid w"
  by (rule ccontr) (auto simp: wf_world_def intro!: txn_changes_fresh)

text \<open>Entries appended under an identifier no row carries leave the chain as it is.\<close>

lemma undo_chain_extend_log:
  assumes "wf_world w" and "undo_chain s (audit_log w) rs S0 S" and "next_txid w \<le> u"
  shows "undo_chain s (audit_log w @ tag u cs) rs S0 S"
proof -
  have "\<forall>r \<in> set rs. txn_changes (snd r) (audit_log w @ tag u cs) = txn_changes (snd r) (audit_log w)"
  proof
    fix r assume "r \<in> set rs"
    from assms(1) undo_chain_logged [OF assms(2) this] have "snd r < next_txid w"
      by (rule logged_txid_below)
    with assms(3) show "txn_changes (snd r) (audit_log w @ tag u cs) = txn_changes (snd r) (audit_log w)"
      by simp
  qed
  then have "undo_chain s (audit_log w @ tag u cs) rs S0 S = undo_chain s (audit_log w) rs S0 S"
    by (rule undo_chain_cong)
  with assms(2) show ?thesis by simp
qed

text \<open>The rollback loop over a suffix of the chain's rows, highest first, succeeds and
  leaves the state the prefix of the chain ends in, with the prefix's chain intact.\<close>

lemma rollback_loop_chain:
  assumes wf0: "wf_schemas S0"
  shows "wf_world w \<Longrightarrow> undo_chain s (audit_log w) (rs1 @ rs2) S0 (schemas w) \<Longrightarrow>
    \<exists>w'. rollback_loop (rev rs2) w = (Inr (), w') \<and> wf_world w'
      \<and> undo_chain s (audit_log w') rs1 S0 (schemas w')
      \<and> console w' = console w @ map (\<lambda>r. RollingBack (fst r)) (rev rs2)"
proof (induction rs2 arbitrary: w rule: rev_induct)
  case Nil
  then show ?case by simp
next
  case (snoc x rs2)
  obtain n t where x: "x = (n, t)" by fastforce
  from snoc.prems(2) obtain Sx where chx: "undo_chain s (audit_log w) (rs1 @ rs2) S0 Sx"
    and last: "undo_chain s (audit_log w) [x] Sx (schemas w)"
    using undo_chain_append [of s "audit_log w" "rs1 @ rs2" "[x]"] by auto
  let ?cs = "txn_changes t (audit_log w)"
  from last have run: "logged_run ?cs Sx" and app: "apply_changes ?cs Sx = Inr (schemas w)"
    by (auto simp: x Let_def split: sum.splits)
  from undo_chain_wf [OF chx wf0] have wfx: "wf_schemas Sx" .
  let ?wc = "w\<lparr>console := console w @ [RollingBack n]\<rparr>"
  have undo: "fn_undo_transaction t ?wc = (Inr (), ?wc\<lparr>next_txid := Suc (next_txid w), schemas := Sx,
      audit_log := audit_log w @ tag (next_txid w) (inverse_changes ?cs)\<rparr>)"
    using fn_undo_transaction_restores [of Sx ?cs ?wc t] wfx run app by simp
  let ?wu = "?wc\<lparr>next_txid := Suc (next_txid w), schemas := Sx,
      audit_log := audit_log w @ tag (next_txid w) (inverse_changes ?cs)\<rparr>"
  from snoc.prems(1) have "wf_world ?wc" by simp
  from fn_undo_transaction_wf [OF this undo] have wfu: "wf_world ?wu" by blast
  from undo_chain_extend_log [OF snoc.prems(1) chx order_refl]
  have "undo_chain s (audit_log ?wu) (rs1 @ rs2) S0 (schemas ?wu)" by simp
  from snoc.IH [OF wfu this] obtain w' where loop: "rollback_loop (rev rs2) ?wu = (Inr (), w')"
    and rest: "wf_world w'" "undo_chain s (audit_log w') rs1 S0 (schemas w')"
      "console w' = console ?wu @ map (\<lambda>r. RollingBack (fst r)) (rev rs2)"
    by blast
  from loop undo have "rollback_loop (rev (rs2 @ [x])) w = (Inr (), w')"
    by (simp add: x console_info_def bind_exc_def)
  with rest show ?case by (simp add: x)
qed


text \<open>On contiguous keys \<open>1..k\<close> in storage order, the rows above \<open>m\<close>, highest first,
  are the suffix after the first \<open>m\<close> rows, reversed.\<close>

lemma rows_above_desc_upt:
  assumes keys: "map fst xs = [1..<Suc k]" and "m \<le> k"
  shows "rows_above_desc m xs = rev (drop m xs)"
proof -
  have t: "map fst (take m xs) = [1..<Suc m]" and d: "map fst (drop m xs) = [Suc m..<Suc k]"
    using assms by (simp_all add: take_map [symmetric] drop_map [symmetric] take_upt drop_upt del: upt_Suc)
  have tle: "fst r \<le> m" if "r \<in> set (take m xs)" for r
  proof -
    from that have "fst r \<in> set (map fst (take m xs))" by simp
    with t show ?thesis by (simp del: upt_Suc)
  qed
  have dgt: "m < fst r" if "r \<in> set (drop m xs)" for r
  proof -
    from that have "fst r \<in> set (map fst (drop m xs))" by simp
    with d show ?thesis by (simp del: upt_Suc)
  qed
  have "filter (\<lambda>r. m < fst r) (take m xs) = []"
    using tle by (simp add: filter_empty_conv not_less)
  moreover have "filter (\<lambda>r. m < fst r) (drop m xs) = drop m xs"
    using dgt by (simp add: filter_id_conv)
  ultimately have "filter (\<lambda>r. m < fst r) xs = drop m xs"
    by (metis append_take_drop_id filter_append self_append_conv2)
  moreover have "sorted (map fst (drop m xs))" by (simp only: d sorted_upt)
  then have "sort_key fst (drop m xs) = drop m xs" by (rule sort_key_id_if_sorted)
  ultimately show ?thesis by (simp add: rows_above_desc_def)
qed

text \<open>The cursor row at id 1, if any, of the state a non-empty chain ends in names the
  chain's last block.\<close>

lemma undo_chain_cursor:
  "undo_chain s log rs S0 S \<Longrightarrow> rs \<noteq> [] \<Longrightarrow>
     \<exists>tb. S s = Some tb \<and> (\<forall>r. map_of (index_state tb) 1 = Some r \<longrightarrow> block_number r = fst (last rs))"
proof (induction rs arbitrary: S0)
  case Nil
  then show ?case by simp
next
  case (Cons x rs)
  obtain n t where x: "x = (n, t)" by fastforce
  from Cons.prems(1) obtain S1 where step: "block_step s n t S0 S1" and rest: "undo_chain s log rs S1 S"
    by (auto simp: x Let_def split: sum.splits)
  show ?case
  proof (cases "rs = []")
    case True
    with rest step show ?thesis by (auto simp: x block_step_def split: option.splits)
  next
    case False
    from Cons.IH [OF rest False] False show ?thesis by simp
  qed
qed

text \<open>What \<open>loadIndexState\<close> returns when the cursor row at id 1, if any, names block
  \<open>k\<close>: block \<open>k\<close>, or the default block 0.\<close>

lemma loadIndexState_cursor:
  assumes "loadIndexState h w = (Inr c, w')" and "schemas w (dbSchema h) = Some tb"
    and "\<forall>r. map_of (index_state tb) 1 = Some r \<longrightarrow> block_number r = k"
  shows "w' = w \<and> (mi_blockNumber c = k \<or> mi_blockNumber c = 0)"
proof (cases "map_of (index_state tb) 1")
  case None
  from loadIndexState_absent [OF assms(2) None] assms(1) show ?thesis
    by (simp add: to_MigrationIndexState_def defaultIndexState_def)
next
  case (Some r)
  from loadIndexState_found [OF assms(2) Some] assms(1,3) Some show ?thesis
    by (auto simp: to_MigrationIndexState_def)
qed

text \<open>With contiguous keys, the cursor row at id 1, if any, names the head block.\<close>

lemma undo_chain_head_cursor:
  assumes "undo_chain s log rs S0 S" and "S0 s = Some tb0" and "map_of (index_state tb0) 1 = None"
    and "S s = Some tb" and "map fst rs = [1..<Suc (length rs)]"
  shows "\<forall>r. map_of (index_state tb) 1 = Some r \<longrightarrow> block_number r = length rs"
proof (cases "rs = []")
  case True
  with assms show ?thesis by simp
next
  case False
  from undo_chain_cursor [OF assms(1) False] assms(4) have
    "\<forall>r. map_of (index_state tb) 1 = Some r \<longrightarrow> block_number r = fst (last rs)" by auto
  moreover have "fst (last rs) = length rs"
  proof -
    from False have "fst (last rs) = last (map fst rs)" by (simp add: last_map)
    also have "\<dots> = length rs" using assms(5) False by (simp add: last_upt del: upt_Suc)
    finally show ?thesis .
  qed
  ultimately show ?thesis by simp
qed

text \<open>A rollback to \<open>m\<close>, at most the head, from a state whose rows carry an undoable
  chain: it succeeds, and the rows and chain that remain are the first \<open>m\<close>.\<close>

lemma rollbackTo_chain:
  assumes wf: "wf_world w" and wf0: "wf_schemas S0" and tb0: "S0 (dbSchema h) = Some tb0"
    and e0: "block_number_txid tb0 = []" and tb: "schemas w (dbSchema h) = Some tb"
    and ch: "undo_chain (dbSchema h) (audit_log w) (block_number_txid tb) S0 (schemas w)"
    and keys: "map fst (block_number_txid tb) = [1..<Suc k]" and "m \<le> k"
  shows "\<exists>w' tb'. rollbackTo h m w = (Inr (), w') \<and> wf_world w'
     \<and> schemas w' (dbSchema h) = Some tb' \<and> block_number_txid tb' = take m (block_number_txid tb)
     \<and> undo_chain (dbSchema h) (audit_log w') (block_number_txid tb') S0 (schemas w')"
proof -
  let ?rs = "block_number_txid tb"
  from ch have "undo_chain (dbSchema h) (audit_log w) (take m ?rs @ drop m ?rs) S0 (schemas w)" by simp
  from rollback_loop_chain [OF wf0 wf this] obtain wl where
    loop: "rollback_loop (rev (drop m ?rs)) w = (Inr (), wl)" and wfl: "wf_world wl"
    and chl: "undo_chain (dbSchema h) (audit_log wl) (take m ?rs) S0 (schemas wl)"
    by blast
  from undo_chain_tables [OF chl tb0] e0 obtain tb' where
    tb': "schemas wl (dbSchema h) = Some tb'" "block_number_txid tb' = take m ?rs"
    by auto
  from rows_above_desc_upt [OF keys assms(8)] loop tb
  have "rollbackTo h m w = (Inr (), wl\<lparr>console := console wl @ [RollbackComplete]\<rparr>)"
    by (simp add: rollbackTo_def where_block_number_gt_def tables_of_def bind_exc_def console_info_def)
  with wfl tb' chl show ?thesis by auto
qed


section \<open>Lemmas: the serial ids along the chain\<close>

lemma index_ids_below_mono: "index_ids_below s b S \<Longrightarrow> b \<le> b' \<Longrightarrow> index_ids_below s b' S"
  by (auto simp: index_ids_below_def list_all_iff split: option.splits)

lemma ids_along_mono: "ids_along s log rs S0 b \<Longrightarrow> b \<le> b' \<Longrightarrow> ids_along s log rs S0 b'"
  by (induction s log rs S0 b rule: ids_along.induct)
    (auto intro: index_ids_below_mono split: sum.splits)

lemma ids_along_head: "ids_along s log rs S0 b \<Longrightarrow> index_ids_below s b S0"
  by (induction s log rs S0 b rule: ids_along.induct) simp_all

lemma ids_along_append:
  "undo_chain s log rs1 S0 Sm \<Longrightarrow>
     ids_along s log (rs1 @ rs2) S0 b \<longleftrightarrow> ids_along s log rs1 S0 b \<and> ids_along s log rs2 Sm b"
proof (induction rs1 arbitrary: S0)
  case Nil
  then show ?case by (auto dest: ids_along_head)
next
  case (Cons r rs1)
  obtain n t where r: "r = (n, t)" by fastforce
  from Cons.prems obtain S1 where "apply_changes (txn_changes t log) S0 = Inr S1"
    and ch: "undo_chain s log rs1 S1 Sm"
    by (auto simp: r Let_def split: sum.splits)
  with Cons.IH [OF ch] show ?case by (simp add: r)
qed

lemma ids_along_last: "undo_chain s log rs S0 S \<Longrightarrow> ids_along s log rs S0 b \<Longrightarrow> index_ids_below s b S"
  using ids_along_append [of s log rs S0 S "[]" b] by simp

lemma ids_along_snoc:
  "undo_chain s log rs S0 S \<Longrightarrow> ids_along s log rs S0 b \<Longrightarrow>
     apply_changes (txn_changes t log) S = Inr S' \<Longrightarrow> index_ids_below s b S' \<Longrightarrow>
     ids_along s log (rs @ [(n, t)]) S0 b"
  by (simp add: ids_along_append ids_along_last)

lemma ids_along_cong:
  "\<forall>r \<in> set rs. txn_changes (snd r) log' = txn_changes (snd r) log \<Longrightarrow>
     ids_along s log' rs S0 b = ids_along s log rs S0 b"
proof (induction rs arbitrary: S0)
  case Nil
  then show ?case by simp
next
  case (Cons r rs)
  then show ?case by (cases r) (simp split: sum.splits)
qed

text \<open>A successful \<open>applyBlock\<close> inserts a cursor row only at the id it draws.\<close>

lemma applyBlock_index_ids_below:
  assumes a: "applyBlock h block isReplay hvn mutate w = (Inr (), w')"
    and tb: "schemas w (dbSchema h) = Some tb"
    and below: "index_ids_below (dbSchema h) (id_seq w (dbSchema h)) (schemas w)"
  shows "index_ids_below (dbSchema h) (id_seq w' (dbSchema h)) (schemas w')"
proof -
  let ?s = "dbSchema h"
  define i where "i = (if map_of (index_state tb) 1 = None then Suc (id_seq w ?s) else 1)"
  from applyBlock_Inr_tables [OF a tb] obtain tb' where sch': "schemas w' ?s = Some tb'"
    and idx: "map_of (index_state tb') = (map_of (index_state tb))(i \<mapsto>
          \<lparr>block_number = blockNumber (blockInfo block), block_hash = blockHash (blockInfo block),
           is_replay = isReplay, handler_version_name = hvn\<rparr>)"
    and seq: "id_seq w' ?s = (if map_of (index_state tb) 1 = None then Suc (id_seq w ?s) else id_seq w ?s)"
    by (auto simp: i_def)
  from arg_cong [OF idx, of dom] have ids: "set (map fst (index_state tb')) = insert i (set (map fst (index_state tb)))"
    by (simp add: dom_map_of_conv_image_fst)
  from below tb have old: "\<forall>j \<in> set (map fst (index_state tb)). j \<le> id_seq w ?s"
    by (simp add: index_ids_below_def list_all_iff)
  have "i \<le> id_seq w' ?s"
  proof (cases "map_of (index_state tb) 1")
    case None
    with seq show ?thesis by (simp add: i_def)
  next
    case (Some r)
    then have "1 \<in> set (map fst (index_state tb))" by (force dest: map_of_SomeD)
    with old Some seq show ?thesis by (auto simp: i_def)
  qed
  moreover from seq have "id_seq w ?s \<le> id_seq w' ?s" by simp
  ultimately show ?thesis using ids old sch' by (auto simp: index_ids_below_def list_all_iff)
qed

text \<open>The recorded changes of the chain's transactions stay as they are in a later log.\<close>

lemma undo_chain_log_extends:
  assumes "wf_world w" and "undo_chain s (audit_log w) rs S0 S" and "log_extends w w'"
  shows "\<forall>r \<in> set rs. txn_changes (snd r) (audit_log w') = txn_changes (snd r) (audit_log w)"
proof
  fix r assume "r \<in> set rs"
  from assms(1) undo_chain_logged [OF assms(2) this] have "snd r < next_txid w"
    by (rule logged_txid_below)
  with assms(3) show "txn_changes (snd r) (audit_log w') = txn_changes (snd r) (audit_log w)"
    by (rule log_extends_txn_changes)
qed

section \<open>Lemmas: the driver's steps keep the invariant\<close>

text \<open>A block the driver applies successfully is the one after the head: at block 0 over
  a non-empty table, block 1 is already recorded.\<close>

lemma applied_block_is_head:
  assumes "wf_world w" and "schemas w (dbSchema h) = Some tb"
    and "map fst (block_number_txid tb) = [1..<Suc (length (block_number_txid tb))]"
    and "n = length (block_number_txid tb) \<or> n = 0"
    and "applyBlock h block isReplay hvn mutate w = (Inr (), w')" and "blockNumber (blockInfo block) = Suc n"
  shows "n = length (block_number_txid tb)"
proof -
  from applyBlock_Inr_new_key [OF assms(1,5,2)] assms(3,6)
  have "Suc n \<notin> set [1..<Suc (length (block_number_txid tb))]" by simp
  then have "\<not> Suc n < Suc (length (block_number_txid tb))" by (simp del: upt_Suc)
  with assms(4) show ?thesis by arith
qed

lemma driver_inv_block_applied:
  assumes inv: "driver_inv h (n, w)" and a: "applyBlock h block isReplay hvn mutate w = (Inr (), w')"
    and num: "blockNumber (blockInfo block) = Suc n"
  shows "driver_inv h (Suc n, w')"
proof -
  let ?s = "dbSchema h" and ?t = "next_txid w"
  from inv obtain S0 tb0 tb where wf: "wf_world w" and wf0: "wf_schemas S0" and tb0: "S0 ?s = Some tb0"
    "block_number_txid tb0 = []" "map_of (index_state tb0) 1 = None" and tb: "schemas w ?s = Some tb"
    and ch: "undo_chain ?s (audit_log w) (block_number_txid tb) S0 (schemas w)"
    and keys: "map fst (block_number_txid tb) = [1..<Suc (length (block_number_txid tb))]"
    and ia: "ids_along ?s (audit_log w) (block_number_txid tb) S0 (id_seq w ?s)"
    and inc: "sorted_wrt (<) (map snd (block_number_txid tb))"
    and nk: "n = length (block_number_txid tb) \<or> n = 0"
    by auto
  let ?rs = "block_number_txid tb" let ?k = "length (block_number_txid tb)"
  from applied_block_is_head [OF wf tb keys nk a num] have n: "n = ?k" .
  from applyBlock_Inr_tables [OF a tb] num obtain tb' where sch': "schemas w' = (schemas w)(?s \<mapsto> tb')"
    and idx: "map_of (index_state tb') = (map_of (index_state tb))
         ((if map_of (index_state tb) 1 = None then Suc (id_seq w ?s) else 1) \<mapsto>
          \<lparr>block_number = Suc n, block_hash = blockHash (blockInfo block),
           is_replay = isReplay, handler_version_name = hvn\<rparr>)"
    and bnt': "block_number_txid tb' = ?rs @ [(Suc n, ?t)]"
    by auto
  from applyBlock_eff [OF a] obtain cs where run: "logged_run cs (schemas w)"
    and app: "apply_changes cs (schemas w) = Inr (schemas w')"
    and log': "audit_log w' = audit_log w @ tag ?t cs" and own: "list_all (\<lambda>sc. fst sc = ?s) cs"
    and nt': "next_txid w' = Suc ?t"
    by (auto simp: eff_def)
  from wf have "txn_changes ?t (audit_log w) = []" by (auto simp: wf_world_def intro!: txn_changes_fresh)
  with log' have tc: "txn_changes ?t (audit_log w') = cs" by simp
  have cursor: "case map_of (index_state tb') 1 of None \<Rightarrow> True | Some r \<Rightarrow> block_number r = Suc n"
    using idx by (cases "map_of (index_state tb) 1") (auto split: option.splits)
  from sch' tb bnt' cursor have "block_step ?s (Suc n) ?t (schemas w) (schemas w')"
    by (simp add: block_step_def)
  with run app own tc have last: "undo_chain ?s (audit_log w') [(Suc n, ?t)] (schemas w) (schemas w')"
    by (simp add: Let_def)
  from log' nt' have ext: "log_extends w w'" by (auto simp: log_extends_def tag_def)
  from undo_chain_log_extends [OF wf ch ext] have stable:
    "\<forall>r \<in> set ?rs. txn_changes (snd r) (audit_log w') = txn_changes (snd r) (audit_log w)" .
  from ch undo_chain_cong [OF stable] have ch1: "undo_chain ?s (audit_log w') ?rs S0 (schemas w)" by simp
  with last have "undo_chain ?s (audit_log w') (block_number_txid tb') S0 (schemas w')"
    by (auto simp: bnt' undo_chain_append)
  moreover have "ids_along ?s (audit_log w') (block_number_txid tb') S0 (id_seq w' ?s)"
  proof -
    from ia ids_along_cong [OF stable] have "ids_along ?s (audit_log w') ?rs S0 (id_seq w ?s)" by simp
    then have "ids_along ?s (audit_log w') ?rs S0 (id_seq w' ?s)"
      using id_seq_applyBlock [OF a] by (rule ids_along_mono)
    moreover from applyBlock_index_ids_below [OF a tb ids_along_last [OF ch ia]]
    have "index_ids_below ?s (id_seq w' ?s) (schemas w')" .
    ultimately show ?thesis using ids_along_snoc [OF ch1] app tc bnt' by simp
  qed
  moreover from keys n bnt' have "map fst (block_number_txid tb') = [1..<Suc (length (block_number_txid tb'))]"
    by simp
  moreover have "sorted_wrt (<) (map snd (block_number_txid tb'))"
  proof -
    have "snd r < ?t" if "r \<in> set ?rs" for r
      using logged_txid_below [OF wf undo_chain_logged [OF ch that]] .
    with inc bnt' show ?thesis by (auto simp: sorted_wrt_append)
  qed
  moreover from applyBlock_wf [OF wf a] have "wf_world w'" .
  ultimately show ?thesis using wf0 tb0 sch' n bnt' by auto
qed

lemma driver_inv_frame:
  assumes "driver_inv h (n, w)" and "wf_world w'" and "schemas w' = schemas w"
    and "audit_log w' = audit_log w" and "id_seq w (dbSchema h) \<le> id_seq w' (dbSchema h)"
  shows "driver_inv h (n, w')"
  using assms by (fastforce intro: ids_along_mono)

lemma driver_inv_block_failed:
  assumes "driver_inv h (n, w)" and "applyBlock h block isReplay hvn mutate w = (Inl e, w')"
  shows "driver_inv h (n, w')"
proof (rule driver_inv_frame [OF assms(1)])
  from with_transaction_Inl [OF assms(2) [unfolded applyBlock_eq]]
  show "schemas w' = schemas w" "audit_log w' = audit_log w" by simp_all
  from assms show "wf_world w'" by (auto intro: applyBlock_wf)
  from assms(2) show "id_seq w (dbSchema h) \<le> id_seq w' (dbSchema h)" by (rule id_seq_applyBlock)
qed

lemma driver_inv_rolled_back:
  assumes inv: "driver_inv h (n, w)" and "m < n" and rb: "rollbackTo h m w = (Inr (), w1)"
    and ld: "loadIndexState h w1 = (Inr c, w2)"
  shows "driver_inv h (mi_blockNumber c, w2)"
proof -
  let ?s = "dbSchema h"
  from inv obtain S0 tb0 tb where wf: "wf_world w" and wf0: "wf_schemas S0" and tb0: "S0 ?s = Some tb0"
    "block_number_txid tb0 = []" "map_of (index_state tb0) 1 = None" and tb: "schemas w ?s = Some tb"
    and ch: "undo_chain ?s (audit_log w) (block_number_txid tb) S0 (schemas w)"
    and keys: "map fst (block_number_txid tb) = [1..<Suc (length (block_number_txid tb))]"
    and ia: "ids_along ?s (audit_log w) (block_number_txid tb) S0 (id_seq w ?s)"
    and inc: "sorted_wrt (<) (map snd (block_number_txid tb))"
    and nk: "n = length (block_number_txid tb) \<or> n = 0"
    by auto
  let ?ps = "take m (block_number_txid tb)"
  from nk assms(2) have mk: "m \<le> length (block_number_txid tb)" by auto
  from rollbackTo_chain [OF wf wf0 tb0(1,2) tb ch keys mk] rb obtain tb' where
    wf1: "wf_world w1" and tb': "schemas w1 ?s = Some tb'"
    and bnt': "block_number_txid tb' = ?ps"
    and ch': "undo_chain ?s (audit_log w1) (block_number_txid tb') S0 (schemas w1)"
    by auto
  from keys mk bnt' have keys': "map fst (block_number_txid tb') = [1..<Suc (length (block_number_txid tb'))]"
    by (simp add: take_map [symmetric] take_upt min_absorb1 del: upt_Suc)
  have ia': "ids_along ?s (audit_log w1) (block_number_txid tb') S0 (id_seq w1 ?s)"
  proof -
    from ch obtain Sm where chm: "undo_chain ?s (audit_log w) ?ps S0 Sm"
      using undo_chain_append [of ?s "audit_log w" ?ps "drop m (block_number_txid tb)"] by auto
    from ia ids_along_append [OF chm, of "drop m (block_number_txid tb)"]
    have "ids_along ?s (audit_log w) ?ps S0 (id_seq w ?s)" by simp
    with ids_along_cong [OF undo_chain_log_extends [OF wf chm log_extends_rollbackTo [OF rb]]]
    have "ids_along ?s (audit_log w1) ?ps S0 (id_seq w ?s)" by simp
    from ids_along_mono [OF this id_seq_rollbackTo [OF rb]] show ?thesis by (simp add: bnt')
  qed
  from inc bnt' have inc': "sorted_wrt (<) (map snd (block_number_txid tb'))"
    by (simp add: take_map [symmetric] sorted_wrt_take)
  from undo_chain_head_cursor [OF ch' tb0(1,3) tb' keys'] have
    "\<forall>r. map_of (index_state tb') 1 = Some r \<longrightarrow> block_number r = length (block_number_txid tb')" .
  from loadIndexState_cursor [OF ld tb' this] have "w2 = w1"
    and "mi_blockNumber c = length (block_number_txid tb') \<or> mi_blockNumber c = 0" by auto
  with wf1 wf0 tb0 tb' ch' keys' ia' inc' show ?thesis by auto
qed

lemma driver_inv_restarted:
  assumes inv: "driver_inv h (n, w)" and ld: "loadIndexState h w = (Inr c, w')"
  shows "driver_inv h (mi_blockNumber c, w')"
proof -
  let ?s = "dbSchema h"
  from inv obtain S0 tb0 tb where wf: "wf_world w" and wf0: "wf_schemas S0" and tb0: "S0 ?s = Some tb0"
    "block_number_txid tb0 = []" "map_of (index_state tb0) 1 = None" and tb: "schemas w ?s = Some tb"
    and ch: "undo_chain ?s (audit_log w) (block_number_txid tb) S0 (schemas w)"
    and keys: "map fst (block_number_txid tb) = [1..<Suc (length (block_number_txid tb))]"
    and ia: "ids_along ?s (audit_log w) (block_number_txid tb) S0 (id_seq w ?s)"
    and inc: "sorted_wrt (<) (map snd (block_number_txid tb))"
    by auto
  from undo_chain_head_cursor [OF ch tb0(1,3) tb keys] have
    "\<forall>r. map_of (index_state tb) 1 = Some r \<longrightarrow> block_number r = length (block_number_txid tb)" .
  from loadIndexState_cursor [OF ld tb this] have "w' = w"
    and "mi_blockNumber c = length (block_number_txid tb) \<or> mi_blockNumber c = 0" by auto
  with wf wf0 tb0 tb ch keys ia inc show ?thesis by auto
qed

lemma driver_step_inv: "driver_step h ev st st' \<Longrightarrow> driver_inv h st \<Longrightarrow> driver_inv h st'"
proof (induction rule: driver_step.induct)
  case (block_applied block n isReplay hvn mutate w w')
  from driver_inv_block_applied [OF block_applied.prems block_applied.hyps(2,1)] show ?case .
next
  case (block_failed block n isReplay hvn mutate w e w')
  from driver_inv_block_failed [OF block_failed.prems block_failed.hyps(2)] show ?case .
next
  case (block_skipped block n isReplay hvn mutate w)
  from block_skipped.prems show ?case .
next
  case (rolled_back m n w w1 c w2)
  from driver_inv_rolled_back [OF rolled_back.prems rolled_back.hyps] show ?case .
next
  case (restarted w c w' n)
  from driver_inv_restarted [OF restarted.prems restarted.hyps] show ?case .
qed

lemma driver_run_inv: "driver_run h evs st st' \<Longrightarrow> driver_inv h st \<Longrightarrow> driver_inv h st'"
  by (induction rule: driver_run.induct) (blast intro: driver_step_inv)+


lemma driver_inv_start:
  "wf_world w0 \<Longrightarrow> schemas w0 (dbSchema h) = Some tb0 \<Longrightarrow> block_number_txid tb0 = [] \<Longrightarrow>
     index_state tb0 = [] \<Longrightarrow> driver_inv h (0, w0)"
  by (auto simp: wf_world_def index_ids_below_def)

text \<open>Each step of the driver moves the recorded block numbers as the abstract machine
  allows.\<close>

lemma driver_step_keys:
  "driver_step h ev st st' \<Longrightarrow> driver_inv h st \<Longrightarrow> keys_step (bnt_keys h (snd st)) (bnt_keys h (snd st'))"
proof (induction rule: driver_step.induct)
  case (block_applied block n isReplay hvn mutate w w')
  from block_applied.prems obtain tb where wf: "wf_world w" and tb: "schemas w (dbSchema h) = Some tb"
    and keys: "map fst (block_number_txid tb) = [1..<Suc (length (block_number_txid tb))]"
    and nk: "n = length (block_number_txid tb) \<or> n = 0"
    by auto
  from applied_block_is_head [OF wf tb keys nk block_applied.hyps(2,1)]
  have n: "n = length (block_number_txid tb)" .
  from applyBlock_Inr_tables [OF block_applied.hyps(2) tb] block_applied.hyps(1) obtain tb' where
    "schemas w' (dbSchema h) = Some tb'"
    "block_number_txid tb' = block_number_txid tb @ [(Suc n, next_txid w)]"
    by auto
  with tb n have "bnt_keys h w' = bnt_keys h w @ [Suc (length (bnt_keys h w))]"
    by (simp add: bnt_keys_def)
  then show ?case by (simp add: keys_step.keys_append)
next
  case (block_failed block n isReplay hvn mutate w e w')
  then have "schemas w' = schemas w"
    unfolding applyBlock_eq by (blast dest: with_transaction_Inl)
  then show ?case by (simp add: bnt_keys_def keys_step.keys_same)
next
  case (block_skipped block n isReplay hvn mutate w)
  then show ?case by (simp add: keys_step.keys_same)
next
  case (rolled_back m n w w1 c w2)
  from rolled_back.prems obtain S0 tb0 tb where wf: "wf_world w" and wf0: "wf_schemas S0"
    and tb0: "S0 (dbSchema h) = Some tb0" "block_number_txid tb0 = []" and tb: "schemas w (dbSchema h) = Some tb"
    and ch: "undo_chain (dbSchema h) (audit_log w) (block_number_txid tb) S0 (schemas w)"
    and keys: "map fst (block_number_txid tb) = [1..<Suc (length (block_number_txid tb))]"
    and nk: "n = length (block_number_txid tb) \<or> n = 0"
    by auto
  from nk rolled_back.hyps(1) have mk: "m \<le> length (block_number_txid tb)" by auto
  from rollbackTo_chain [OF wf wf0 tb0 tb ch keys mk] rolled_back.hyps(2) obtain tb' where
    "schemas w1 (dbSchema h) = Some tb'" "block_number_txid tb' = take m (block_number_txid tb)"
    by auto
  moreover from loadIndexState_state [OF rolled_back.hyps(3)] have "w2 = w1" .
  ultimately have "bnt_keys h w2 = take m (bnt_keys h w)" using tb by (simp add: bnt_keys_def take_map)
  moreover from mk tb have "m \<le> length (bnt_keys h w)" by (simp add: bnt_keys_def)
  ultimately show ?case by (simp add: keys_step.keys_cut)
next
  case (restarted w c w' n)
  from loadIndexState_state [OF restarted.hyps] show ?case by (simp add: keys_step.keys_same)
qed

text \<open>At the head of the records, the next block whose updaters return their writes
  commits: its number is new and the cursor row's serial id is free.\<close>

lemma driver_inv_progress:
  assumes inv: "driver_inv h (n, w)" and tb: "schemas w (dbSchema h) = Some tb"
    and "n = length (block_number_txid tb)" and "blockNumber (blockInfo block) = Suc n"
    and "mutate (next_txid w) (rows tb) = Inr ws"
  shows "\<exists>w'. applyBlock h block isReplay hvn mutate w = (Inr (), w')"
proof -
  let ?s = "dbSchema h"
  from inv tb obtain S0 where
    ch: "undo_chain ?s (audit_log w) (block_number_txid tb) S0 (schemas w)"
    and keys: "map fst (block_number_txid tb) = [1..<Suc (length (block_number_txid tb))]"
    and ia: "ids_along ?s (audit_log w) (block_number_txid tb) S0 (id_seq w ?s)"
    by auto
  from ids_along_last [OF ch ia] tb have "\<forall>i \<in> set (map fst (index_state tb)). i \<le> id_seq w ?s"
    by (simp add: index_ids_below_def list_all_iff)
  then have fresh: "Suc (id_seq w ?s) \<notin> set (map fst (index_state tb))" by auto
  from keys assms(3,4) have new: "blockNumber (blockInfo block) \<notin> set (map fst (block_number_txid tb))"
    by (simp del: upt_Suc)
  let ?w1 = "w\<lparr>next_txid := Suc (next_txid w)\<rparr>"
  from tb have "schemas ?w1 ?s = Some tb" by simp
  from handleActions_total [OF this, of mutate "next_txid w" ws block isReplay hvn "next_txid w"] assms(5) new fresh
  show ?thesis by (auto simp: applyBlock_Inr_iff)
qed

section \<open>Properties of the driver over the handler\<close>

text \<open>C17 (the spec's invariant of section 3, over every reachable state): a driver that
  starts at block 0 on a well-formed database whose schema has no cursor and no
  \<open>_block_number_txid\<close> rows, whatever blocks, failures, forks and restarts it then
  sees, leaves \<open>_block_number_txid\<close> holding exactly one row for each block \<open>1..k\<close>,
  in order, with no hole; and the block the driver believes it is at is the head \<open>k\<close>,
  unless the cursor was lost, when it is 0.\<close>

theorem driver_run_contiguous:
  assumes "wf_world w0" and "schemas w0 (dbSchema h) = Some tb0"
    and "block_number_txid tb0 = []" and "index_state tb0 = []"
    and "driver_run h evs (0, w0) (n, w)"
  shows "\<exists>tb. schemas w (dbSchema h) = Some tb
     \<and> map fst (block_number_txid tb) = [1..<Suc (length (block_number_txid tb))]
     \<and> (n = length (block_number_txid tb) \<or> n = 0)"
proof -
  from driver_run_inv [OF assms(5) driver_inv_start [OF assms(1-4)]] show ?thesis by auto
qed

text \<open>C18 (rollback never fails in reachable states): in every state such a driver
  reaches, a fork below the driver's block \<open>n\<close>, at block \<open>m < n\<close>, is handled: the
  rollback succeeds (the spec's \<open>RollbackFailure\<close> cannot arise) and removes exactly the
  rows above \<open>m\<close>, leaving the rows of the blocks \<open>1..m\<close>.\<close>

theorem driver_rollback_succeeds:
  assumes "wf_world w0" and "schemas w0 (dbSchema h) = Some tb0"
    and "block_number_txid tb0 = []" and "index_state tb0 = []"
    and "driver_run h evs (0, w0) (n, w)" and "m < n"
  shows "\<exists>w' tb'. rollbackTo h m w = (Inr (), w') \<and> schemas w' (dbSchema h) = Some tb'
     \<and> map fst (block_number_txid tb') = [1..<Suc m]"
proof -
  from driver_run_inv [OF assms(5) driver_inv_start [OF assms(1-4)]] obtain S0 tb0' tb where
    wf: "wf_world w" and wf0: "wf_schemas S0" and tb0': "S0 (dbSchema h) = Some tb0'"
    "block_number_txid tb0' = []" and tb: "schemas w (dbSchema h) = Some tb"
    and ch: "undo_chain (dbSchema h) (audit_log w) (block_number_txid tb) S0 (schemas w)"
    and keys: "map fst (block_number_txid tb) = [1..<Suc (length (block_number_txid tb))]"
    and nk: "n = length (block_number_txid tb) \<or> n = 0"
    by auto
  from nk assms(6) have mk: "m \<le> length (block_number_txid tb)" by auto
  from rollbackTo_chain [OF wf wf0 tb0' tb ch keys mk] obtain w' tb' where
    "rollbackTo h m w = (Inr (), w')" "schemas w' (dbSchema h) = Some tb'"
    "block_number_txid tb' = take m (block_number_txid tb)"
    by blast
  with keys mk show ?thesis
    by (auto simp: take_map [symmetric] take_upt min_absorb1 simp del: upt_Suc)
qed

text \<open>C19 (refinement of the spec's contract for the block/transaction records): in every
  state a driver reaches from a fresh schema, each further step moves the list of block
  numbers in \<open>_block_number_txid\<close> as the abstract machine \<open>keys_step\<close> allows: it
  appends the next block number, cuts the list back to a prefix, or leaves it alone.\<close>

theorem driver_refines_keys_spec:
  assumes "wf_world w0" and "schemas w0 (dbSchema h) = Some tb0"
    and "block_number_txid tb0 = []" and "index_state tb0 = []"
    and "driver_run h evs (0, w0) st" and "driver_step h ev st st'"
  shows "keys_step (bnt_keys h (snd st)) (bnt_keys h (snd st'))"
proof -
  from driver_run_inv [OF assms(5) driver_inv_start [OF assms(1-4)]] have "driver_inv h st" .
  with assms(6) show ?thesis by (rule driver_step_keys)
qed


text \<open>C22 (progress of the driver at its head): in every state a driver reaches from a
  fresh schema, when the driver is at the head block \<open>k\<close> of \<open>_block_number_txid\<close>
  (its cursor is not lost), the block \<open>k + 1\<close> whose updaters return their writes is
  applied and the driver moves to it. The cursor row's serial id never collides: every id
  in \<open>_index_state\<close>, in the present state and in every state a rollback returns to, was
  handed out by the sequence. Together with C15, a driver can stop making progress only by
  losing its cursor.\<close>

theorem driver_progress:
  assumes "wf_world w0" and "schemas w0 (dbSchema h) = Some tb0"
    and "block_number_txid tb0 = []" and "index_state tb0 = []"
    and "driver_run h evs (0, w0) (n, w)" and "schemas w (dbSchema h) = Some tb"
    and "n = length (block_number_txid tb)" and "blockNumber (blockInfo block) = Suc n"
    and "mutate (next_txid w) (rows tb) = Inr ws"
  shows "\<exists>w'. driver_step h (NextBlock block isReplay hvn mutate) (n, w) (Suc n, w')"
proof -
  from driver_run_inv [OF assms(5) driver_inv_start [OF assms(1-4)]] have "driver_inv h (n, w)" .
  from driver_inv_progress [where mutate = mutate, OF this assms(6-9)] obtain w' where
    "applyBlock h block isReplay hvn mutate w = (Inr (), w')" by blast
  with assms(8) show ?thesis by (blast intro: driver_step.block_applied)
qed


text \<open>C24 (bounds on the bookkeeping tables): in every state a driver reaches from a fresh
  schema, the driver's block is at most the number of recorded blocks, every id of
  \<open>_index_state\<close> is at most the last value of the serial sequence, and so the table
  holds at most one row more than the sequence has handed out ids: a rollback never
  brings back a row with an id the sequence has not drawn, and no id is used twice.\<close>

theorem driver_bounds:
  assumes "wf_world w0" and "schemas w0 (dbSchema h) = Some tb0"
    and "block_number_txid tb0 = []" and "index_state tb0 = []"
    and "driver_run h evs (0, w0) (n, w)"
  shows "\<exists>tb. schemas w (dbSchema h) = Some tb \<and> n \<le> length (block_number_txid tb)
     \<and> (\<forall>i \<in> set (map fst (index_state tb)). i \<le> id_seq w (dbSchema h))
     \<and> length (index_state tb) \<le> Suc (id_seq w (dbSchema h))"
proof -
  let ?s = "dbSchema h"
  from driver_run_inv [OF assms(5) driver_inv_start [OF assms(1-4)]] obtain S0 tb where
    wf: "wf_world w" and tb: "schemas w ?s = Some tb"
    and ch: "undo_chain ?s (audit_log w) (block_number_txid tb) S0 (schemas w)"
    and ia: "ids_along ?s (audit_log w) (block_number_txid tb) S0 (id_seq w ?s)"
    and inc: "sorted_wrt (<) (map snd (block_number_txid tb))"
    and nk: "n = length (block_number_txid tb) \<or> n = 0"
    by auto
  from ids_along_last [OF ch ia] tb have le: "\<forall>i \<in> set (map fst (index_state tb)). i \<le> id_seq w ?s"
    by (simp add: index_ids_below_def list_all_iff)
  from wf tb have "distinct (map fst (index_state tb))"
    by (auto simp: wf_world_def wf_schemas_def wf_tables_def)
  then have "length (index_state tb) = card (set (map fst (index_state tb)))"
    using distinct_card [of "map fst (index_state tb)"] by simp
  also from le have "\<dots> \<le> card {..id_seq w ?s}" by (intro card_mono) auto
  finally have "length (index_state tb) \<le> Suc (id_seq w ?s)" by simp
  with tb nk le show ?thesis by auto
qed


text \<open>C25 (undo in reverse commit order): in every state a driver reaches from a fresh
  schema, whatever the target block \<open>m\<close>, the rows \<open>rollbackTo m\<close> queries (block
  above \<open>m\<close>, highest first) carry strictly decreasing transaction identifiers: the
  rollback undoes the blocks' transactions latest first, the reverse of the order in which
  they committed, as undoing dependent writes requires.\<close>

theorem driver_undo_order:
  assumes "wf_world w0" and "schemas w0 (dbSchema h) = Some tb0"
    and "block_number_txid tb0 = []" and "index_state tb0 = []"
    and "driver_run h evs (0, w0) (n, w)"
  shows "\<exists>tb. schemas w (dbSchema h) = Some tb
     \<and> (\<forall>m. sorted_wrt (>) (map snd (rows_above_desc m (block_number_txid tb))))"
proof -
  from driver_run_inv [OF assms(5) driver_inv_start [OF assms(1-4)]] obtain tb where
    tb: "schemas w (dbSchema h) = Some tb"
    and keys: "map fst (block_number_txid tb) = [1..<Suc (length (block_number_txid tb))]"
    and inc: "sorted_wrt (<) (map snd (block_number_txid tb))"
    by auto
  have "sorted_wrt (>) (map snd (rows_above_desc m (block_number_txid tb)))" for m
  proof (cases "m \<le> length (block_number_txid tb)")
    case True
    from inc have "sorted_wrt (<) (drop m (map snd (block_number_txid tb)))" by (rule sorted_wrt_drop)
    with rows_above_desc_upt [OF keys True] show ?thesis
      by (simp add: rev_map [symmetric] drop_map sorted_wrt_rev)
  next
    case False
    with keys have "\<forall>b \<in> set (map fst (block_number_txid tb)). b \<le> m" by (simp del: upt_Suc)
    then show ?thesis by (simp add: rows_above_desc_none)
  qed
  with tb show ?thesis by blast
qed

end
