(* ===== verification/JsonReader.thy ===== *)
theory JsonReader
  imports Prelude
begin

text \<open>
  \<open>JsonActionReader\<close> of \<open>src/src/testHelpers/JsonActionReader.ts\<close>: a block reader
  over an in-memory array of blocks, used by the tests. Block number \<open>n\<close> is expected at
  array position \<open>n - 1\<close>. \<open>getHeadBlockNumber\<close> (lines 16-23) reads the last block and
  checks that its number is the array's length; \<open>getBlock\<close> (lines 25-34) reads position
  \<open>n - 1\<close> and checks the number found there. JavaScript reads \<open>undefined\<close> outside the
  array (also at a negative index); destructuring \<open>undefined\<close> throws a \<open>TypeError\<close>.
  The block number asked for is a JavaScript number, modelled as \<open>int\<close>.
\<close>

record 'a json_reader =
  blockchain :: "'a block list"
  startAtBlock :: int
  onlyIrreversible :: bool
  maxHistoryLength :: nat

datatype reader_error =
    HeadBlockUndefined
  | HeadBlockMisplaced nat nat
  | BlockMissing int
  | BlockMisplaced int nat

text \<open>The constructor, \<open>None\<close> standing for an omitted argument and its default.\<close>

definition new_JsonActionReader ::
  "'a block list \<Rightarrow> int option \<Rightarrow> bool option \<Rightarrow> nat option \<Rightarrow> 'a json_reader" where
  "new_JsonActionReader chain start irr hist =
     \<lparr>blockchain = chain, startAtBlock = (case start of None \<Rightarrow> 1 | Some n \<Rightarrow> n),
      onlyIrreversible = (case irr of None \<Rightarrow> False | Some b \<Rightarrow> b),
      maxHistoryLength = (case hist of None \<Rightarrow> 600 | Some m \<Rightarrow> m)\<rparr>"

definition getHeadBlockNumber :: "'a json_reader \<Rightarrow> reader_error + nat" where
  "getHeadBlockNumber r =
     (case blockchain r of
        [] \<Rightarrow> Inl HeadBlockUndefined
      | _ \<Rightarrow> (let block = last (blockchain r); n = blockNumber (blockInfo block) in
             if length (blockchain r) \<noteq> n then Inl (HeadBlockMisplaced (length (blockchain r)) n)
             else Inr n))"

definition getBlock :: "'a json_reader \<Rightarrow> int \<Rightarrow> reader_error + 'a block" where
  "getBlock r n =
     (let i = n - 1 in
      if i < 0 \<or> int (length (blockchain r)) \<le> i then Inl (BlockMissing n)
      else (let block = blockchain r ! nat i in
            if int (blockNumber (blockInfo block)) \<noteq> n
            then Inl (BlockMisplaced n (blockNumber (blockInfo block)))
            else Inr block))"

text \<open>A chain in which block \<open>n\<close> sits at position \<open>n - 1\<close>, as the reader expects.\<close>

definition numbered :: "'a block list \<Rightarrow> bool" where
  "numbered chain \<longleftrightarrow> map (\<lambda>b. blockNumber (blockInfo b)) chain = [1..<Suc (length chain)]"

text \<open>The reference a reader's \<open>getBlock\<close> is measured against: the first block of the
  chain carrying the number asked for, searched by number rather than read by position.\<close>

definition find_block :: "'a block list \<Rightarrow> int \<Rightarrow> reader_error + 'a block" where
  "find_block chain n =
     (case find (\<lambda>b. int (blockNumber (blockInfo b)) = n) chain of
        Some b \<Rightarrow> Inr b
      | None \<Rightarrow> Inl (BlockMissing n))"

declare new_JsonActionReader_def [eval_defs]
  getHeadBlockNumber_def [eval_defs]
  getBlock_def [eval_defs]
  numbered_def [eval_defs]
  find_block_def [eval_defs]

section \<open>Lemmas\<close>

lemma numbered_nth:
  "numbered chain \<Longrightarrow> k < length chain \<Longrightarrow> blockNumber (blockInfo (chain ! k)) = Suc k"
proof -
  assume h: "numbered chain" "k < length chain"
  then have "map (\<lambda>b. blockNumber (blockInfo b)) chain ! k = [1..<Suc (length chain)] ! k"
    by (simp add: numbered_def del: upt_Suc)
  with h(2) show ?thesis by (simp del: upt_Suc)
qed

text \<open>On a well-numbered chain the head is the chain's length, and each number up to it is
  served as the block at its position.\<close>

lemma numbered_head:
  assumes "numbered (blockchain r)" and "blockchain r \<noteq> []"
  shows "getHeadBlockNumber r = Inr (length (blockchain r))"
proof -
  from assms have "blockNumber (blockInfo (last (blockchain r))) = length (blockchain r)"
    by (simp add: last_conv_nth numbered_nth)
  with assms(2) show ?thesis
    by (auto simp: getHeadBlockNumber_def Let_def neq_Nil_conv)
qed

lemma numbered_getBlock:
  assumes "numbered (blockchain r)" and k: "k \<in> {1..length (blockchain r)}"
  shows "getBlock r (int k) = Inr (blockchain r ! (k - 1))"
proof -
  from k have "k - 1 < length (blockchain r)" by auto
  with assms(1) k have "blockNumber (blockInfo (blockchain r ! (k - 1))) = k"
    by (auto simp: numbered_nth)
  with k show ?thesis
    by (auto simp: getBlock_def Let_def nat_diff_distrib)
qed

section \<open>Properties of the reader\<close>

text \<open>C11 (reader on a well-numbered chain): on a non-empty chain whose block \<open>n\<close> sits at
  position \<open>n - 1\<close>, the head block number is the length of the chain, and every block
  number from 1 to the head is served, as the block at its position.\<close>

theorem numbered_reader:
  assumes "numbered (blockchain r)" and "blockchain r \<noteq> []"
  shows "getHeadBlockNumber r = Inr (length (blockchain r))
     \<and> (\<forall>k \<in> {1..length (blockchain r)}. getBlock r (int k) = Inr (blockchain r ! (k - 1)))"
  using numbered_head [OF assms] numbered_getBlock [OF assms(1)] by blast

text \<open>C12 (head is served): whenever \<open>getHeadBlockNumber\<close> succeeds, \<open>getBlock\<close> serves
  the block it names, the last block of the chain.\<close>

theorem getHeadBlockNumber_getBlock:
  "getHeadBlockNumber r = Inr n \<Longrightarrow> getBlock r (int n) = Inr (last (blockchain r))"
proof -
  assume "getHeadBlockNumber r = Inr n"
  then have ne: "blockchain r \<noteq> []" and n: "n = length (blockchain r)"
    and last: "blockNumber (blockInfo (last (blockchain r))) = n"
    by (auto simp: getHeadBlockNumber_def Let_def split: list.splits if_splits)
  from ne n have "nat (int n - 1) = length (blockchain r) - 1" by auto
  with ne n last show ?thesis by (auto simp: getBlock_def Let_def last_conv_nth)
qed

text \<open>C21 (equivalence with the reference lookup): on a well-numbered chain, reading block
  \<open>n\<close> by position, as \<open>getBlock\<close> does, gives the same result as searching the chain
  for the block numbered \<open>n\<close>, errors included: every number outside \<open>1..length\<close> is
  reported missing by both.\<close>

theorem getBlock_find_block:
  assumes "numbered (blockchain r)"
  shows "getBlock r n = find_block (blockchain r) n"
proof (cases "1 \<le> n \<and> n \<le> int (length (blockchain r))")
  case True
  let ?k = "nat (n - 1)"
  from True have k: "?k < length (blockchain r)" and nk: "int (Suc ?k) = n" by auto
  from numbered_nth [OF assms k] have num: "blockNumber (blockInfo (blockchain r ! ?k)) = Suc ?k" .
  have before: "\<forall>j < ?k. int (blockNumber (blockInfo (blockchain r ! j))) \<noteq> n"
    using numbered_nth [OF assms] k nk by auto
  have "find (\<lambda>b. int (blockNumber (blockInfo b)) = n) (blockchain r) = Some (blockchain r ! ?k)"
    using k num nk before by (auto simp: find_Some_iff)
  moreover from True num nk have "getBlock r n = Inr (blockchain r ! ?k)"
    by (auto simp: getBlock_def Let_def)
  ultimately show ?thesis by (simp add: find_block_def)
next
  case False
  have "\<forall>b \<in> set (blockchain r). int (blockNumber (blockInfo b)) \<noteq> n"
  proof
    fix b assume "b \<in> set (blockchain r)"
    then obtain j where j: "j < length (blockchain r)" "b = blockchain r ! j" by (auto simp: in_set_conv_nth)
    from numbered_nth [OF assms j(1)] j False show "int (blockNumber (blockInfo b)) \<noteq> n" by auto
  qed
  then have "find (\<lambda>b. int (blockNumber (blockInfo b)) = n) (blockchain r) = None"
    by (simp add: find_None_iff)
  moreover from False have "getBlock r n = Inl (BlockMissing n)" by (auto simp: getBlock_def Let_def)
  ultimately show ?thesis by (simp add: find_block_def)
qed

end
