(* ===== verification/Sync.thy ===== *)
theory Sync
  imports History JsonReader
begin

text \<open>
  The driver fed by a block reader: how demux's reader and handler interact when the
  handler catches up with the chain. The loop (demux's \<open>AbstractActionWatcher\<close>,
  not in this repository, modelled from the spec, sections 2 and 4) asks the reader for
  its head block number and, while the handler is below it, reads the next block
  (\<open>getBlock\<close> of \<open>JsonActionReader.ts\<close>) and passes it to the handler
  (\<open>applyBlock\<close>); it stops at the head, at the reader's first error, or at the
  handler's first error. \<open>catch_up\<close> is a \<open>function\<close> whose termination argument is
  the distance to the head, which every block applied shortens. Its runs are runs of the
  driver relation (\<open>catch_up_driver_run\<close>), so the invariants of \<open>History\<close> hold along
  them.
\<close>

datatype sync_error = ReaderError reader_error | ApplyError error

function catch_up ::
  "handler \<Rightarrow> 'a json_reader \<Rightarrow> ('a block \<Rightarrow> ('k, 'v) mutation) \<Rightarrow> string \<Rightarrow> ('k, 'v) driver_state
     \<Rightarrow> (sync_error + unit) \<times> ('k, 'v) driver_state" where
  "catch_up h r updaters hvn (n, w) =
     (case getHeadBlockNumber r of
        Inl e \<Rightarrow> (Inl (ReaderError e), (n, w))
      | Inr head \<Rightarrow>
          if head \<le> n then (Inr (), (n, w))
          else (case getBlock r (int (Suc n)) of
                  Inl e \<Rightarrow> (Inl (ReaderError e), (n, w))
                | Inr block \<Rightarrow>
                    (case applyBlock h block False hvn (updaters block) w of
                       (Inl e, w') \<Rightarrow> (Inl (ApplyError e), (n, w'))
                     | (Inr u, w') \<Rightarrow> catch_up h r updaters hvn (Suc n, w'))))"
  by pat_completeness auto
termination
  by (relation "measure (\<lambda>(h, r, updaters, hvn, st).
        case getHeadBlockNumber r of Inl e \<Rightarrow> 0 | Inr head \<Rightarrow> head - fst st)") auto

declare catch_up.simps [simp del]

section \<open>Lemmas\<close>

lemma getBlock_Inr_number: "getBlock r k = Inr b \<Longrightarrow> int (blockNumber (blockInfo b)) = k"
  by (auto simp: getBlock_def Let_def split: if_splits)

text \<open>From the head of the records, on a well-numbered chain and with updaters that
  never throw, the loop applies every block up to the reader's head.\<close>

lemma catch_up_head:
  "driver_inv h (n, w) \<Longrightarrow> schemas w (dbSchema h) = Some tb \<Longrightarrow> n = length (block_number_txid tb) \<Longrightarrow>
     numbered (blockchain r) \<Longrightarrow> blockchain r \<noteq> [] \<Longrightarrow> \<forall>b t rs. \<exists>ws. updaters b t rs = Inr ws \<Longrightarrow>
     \<exists>w'. catch_up h r updaters hvn (n, w) = (Inr (), (max n (length (blockchain r)), w'))"
proof (induction h r updaters hvn "(n, w)" arbitrary: n w tb rule: catch_up.induct)
  case (1 h r updaters hvn n w)
  let ?len = "length (blockchain r)"
  from numbered_head [OF "1.prems"(4,5)] have head: "getHeadBlockNumber r = Inr ?len" .
  have blocks: "\<forall>k \<in> {1..?len}. getBlock r (int k) = Inr (blockchain r ! (k - 1))"
    using numbered_getBlock [OF "1.prems"(4)] by blast
  show ?case
  proof (cases "?len \<le> n")
    case True
    with head show ?thesis by (simp add: catch_up.simps [of h r updaters hvn n w] max_absorb1)
  next
    case False
    let ?b = "blockchain r ! n"
    from False blocks [rule_format, of "Suc n"] have gb: "getBlock r (int (Suc n)) = Inr ?b" by simp
    from getBlock_Inr_number [OF gb] have num: "blockNumber (blockInfo ?b) = Suc n" by simp
    from "1.prems"(6) obtain ws where "updaters ?b (next_txid w) (rows tb) = Inr ws" by blast
    from driver_inv_progress [where mutate = "updaters ?b" and isReplay = False and hvn = hvn,
        OF "1.prems"(1-3) num this]
    obtain w' where a: "applyBlock h ?b False hvn (updaters ?b) w = (Inr (), w')" by blast
    from driver_inv_block_applied [OF "1.prems"(1) a num] have inv': "driver_inv h (Suc n, w')" .
    then obtain tb' where tb': "schemas w' (dbSchema h) = Some tb'"
      and k': "Suc n = length (block_number_txid tb')"
      by auto
    from "1.hyps" [OF head False gb a [symmetric] refl inv' tb' k' "1.prems"(4-6)] obtain w'' where
      "catch_up h r updaters hvn (Suc n, w') = (Inr (), (max (Suc n) ?len, w''))" by blast
    with head False gb a show ?thesis
      by (simp add: catch_up.simps [of h r updaters hvn n w] max_def)
  qed
qed

section \<open>Properties of the reader-driven loop\<close>

text \<open>C26 (the loop refines the driver): whatever the reader, the updaters and the
  start state, the state \<open>catch_up\<close> stops in is reached by a run of the driver relation
  \<open>driver_run\<close>: each block it applies or fails to apply is a \<open>NextBlock\<close> step the
  driver takes. So every invariant proved of the driver's reachable states (C17-C25)
  holds of the loop's.\<close>

theorem catch_up_driver_run:
  "\<exists>evs :: ('a, 'k, 'v) driver_event list.
     driver_run h evs st (snd (catch_up h (r :: 'a json_reader) updaters hvn (st :: ('k, 'v) driver_state)))"
proof (induction h r updaters hvn st rule: catch_up.induct)
  case (1 h r updaters hvn n w)
  show ?case
  proof (cases "getHeadBlockNumber r")
    case (Inl e)
    then show ?thesis by (auto simp: catch_up.simps [of h r updaters hvn n w] intro: driver_run.run_nil)
  next
    case (Inr head)
    show ?thesis
    proof (cases "head \<le> n")
      case True
      with Inr show ?thesis by (auto simp: catch_up.simps [of h r updaters hvn n w] intro: driver_run.run_nil)
    next
      case False
      show ?thesis
      proof (cases "getBlock r (int (Suc n))")
        case gl: Inl
        with Inr False show ?thesis
          by (auto simp: catch_up.simps [of h r updaters hvn n w] intro: driver_run.run_nil)
      next
        case (Inr block)
        note gb = this
        from getBlock_Inr_number [OF gb] have num: "blockNumber (blockInfo block) = Suc n" by simp
        obtain res w' where a: "applyBlock h block False hvn (updaters block) w = (res, w')" by fastforce
        show ?thesis
        proof (cases res)
          case (Inl e)
          with a num have "driver_step h (NextBlock block False hvn (updaters block)) (n, w) (n, w')"
            by (blast intro: driver_step.block_failed)
          then have "driver_run h [NextBlock block False hvn (updaters block)] (n, w) (n, w')"
            by (blast intro: driver_run.intros)
          moreover from \<open>getHeadBlockNumber r = Inr head\<close> False gb a Inl
          have "snd (catch_up h r updaters hvn (n, w)) = (n, w')"
            by (simp add: catch_up.simps [of h r updaters hvn n w])
          ultimately show ?thesis by (intro exI [of _ "[NextBlock block False hvn (updaters block)]"]) simp
        next
          case (Inr u)
          with a have "applyBlock h block False hvn (updaters block) w = (Inr (), w')" by simp
          from driver_step.block_applied [OF num this]
          have st: "driver_step h (NextBlock block False hvn (updaters block)) (n, w) (Suc n, w')" .
          from "1" [OF \<open>getHeadBlockNumber r = Inr head\<close> False gb a [symmetric, unfolded Inr] refl]
          obtain evs :: "('a, 'k, 'v) driver_event list"
            where "driver_run h evs (Suc n, w') (snd (catch_up h r updaters hvn (Suc n, w')))"
            by blast
          with st have "driver_run h (NextBlock block False hvn (updaters block) # evs) (n, w)
              (snd (catch_up h r updaters hvn (Suc n, w')))"
            by (rule driver_run.run_cons)
          moreover from \<open>getHeadBlockNumber r = Inr head\<close> False gb a Inr
          have "snd (catch_up h r updaters hvn (n, w)) = snd (catch_up h r updaters hvn (Suc n, w'))"
            by (simp add: catch_up.simps [of h r updaters hvn n w])
          ultimately show ?thesis by auto
        qed
      qed
    qed
  qed
qed

text \<open>C27 (the loop terminates at the head): a driver that has reached, from a fresh
  schema, a state at the head of its records and is then fed by a reader over a
  non-empty, well-numbered chain, with updaters that never throw, applies every block up
  to the reader's head and stops there without error. The loop's termination is its
  measure, the distance to the head; that it stops at the head and not at an error is
  the driver's progress (C22) at every step.\<close>

theorem catch_up_reaches_head:
  assumes "wf_world w0" and "schemas w0 (dbSchema h) = Some tb0"
    and "block_number_txid tb0 = []" and "index_state tb0 = []"
    and "driver_run h evs (0, w0) (n, w)" and "schemas w (dbSchema h) = Some tb"
    and "n = length (block_number_txid tb)"
    and "numbered (blockchain r)" and "blockchain r \<noteq> []"
    and "\<forall>b t rs. \<exists>ws. updaters b t rs = Inr ws"
  shows "\<exists>w'. catch_up h r updaters hvn (n, w) = (Inr (), (max n (length (blockchain r)), w'))"
  using catch_up_head [OF driver_run_inv [OF assms(5) driver_inv_start [OF assms(1-4)]] assms(6-10)] .

end
