(* ===== verification/Spec2Isabelle.thy ===== *)
theory Spec2Isabelle
  imports Engine Sync
begin

text \<open>
  A verification development for \<open>demux-js-postgres\<close>: the Postgres action handler of
  \<open>src/src/MassiveActionHandler.ts\<close>, which applies each blockchain block inside one
  serializable transaction, records the block's transaction identifier, and on a fork
  undoes the recorded transactions above a block through cyanaudit; and the test block
  reader \<open>src/src/testHelpers/JsonActionReader.ts\<close>.

  \<^bold>\<open>How the parts interact.\<close> A driver (demux's \<open>AbstractActionHandler\<close>, not in this
  repository) hands each block to the handler. Forward, \<open>handleWithState\<close> opens a
  transaction, reads \<open>txid_current()\<close> and runs the block's updaters and then
  \<open>updateIndexState\<close>, which writes the cursor row of \<open>_index_state\<close> and a row
  (block number, txid) of \<open>_block_number_txid\<close>. Backward, \<open>rollbackTo(n)\<close> reads the
  rows above \<open>n\<close>, highest first, and calls \<open>cyanaudit.fn_undo_transaction(txid)\<close> for
  each; since cyanaudit audited the bookkeeping writes too, the undo removes the rows and
  restores the cursor. \<open>loadIndexState\<close> reads the cursor back, with a default on a
  fresh schema.

  \<^bold>\<open>Theories.\<close>
  \<^item> \<open>Prelude\<close>: the model's basic types (\<open>txid\<close>, schema names, demux's
    \<open>block\<close>), an exception-state monad (\<open>ret\<close>, \<open>raise\<close>, \<open>bind_exc\<close>) standing
    for \<open>async\<close> code that throws, keyed-row list operations (\<open>set_key\<close>, \<open>del_key\<close>
    are SQL's keyed \<open>UPDATE\<close> and \<open>DELETE\<close>), and the collection \<open>eval_defs\<close> of
    definitions the witnesses unfold.
  \<^item> \<open>Database\<close>: the datastore, modelled from the spec because MassiveJS and cyanaudit
    are libraries: record \<open>world\<close> (schemas of \<open>tables\<close>, the audit log, the
    \<open>txid_current()\<close> counter, the serial sequence of \<open>_index_state.id\<close>, the console),
    row changes (\<open>change\<close>, \<open>apply_change\<close>, \<open>invert\<close>), the single audited write
    \<open>log_write\<close>, MassiveJS's \<open>withTransaction\<close> (\<open>with_transaction\<close>, which rolls
    tables and log back on error but not the counter and the sequence), the table calls
    the handler makes (\<open>findOne\<close>, \<open>save\<close>, \<open>insert\<close>, \<open>where ... order desc\<close>), and
    cyanaudit's undo \<open>fn_undo_transaction\<close>. Lemmas: undoing a faithful run of changes
    last-first restores the tables (\<open>apply_inverse_changes\<close>,
    \<open>fn_undo_transaction_restores\<close>); \<open>eff\<close> describes a transaction body's effect
    and composes (\<open>eff_trans\<close>, \<open>eff_bind\<close>); frame lemmas per table call; no
    operation moves a serial sequence back (the collection \<open>seq_ops\<close>, closed under
    \<open>bind_exc\<close> and \<open>with_transaction\<close>).
  \<^item> \<open>IndexState\<close>: the handler object (constructor, \<open>schemaInstance\<close>, lines 8-22),
    \<open>updateIndexState\<close> (46-68) with the object it saves (\<open>toSave\<close>),
    \<open>loadIndexState\<close> (70-84) with the \<open>IndexState\<close> value it returns
    (\<open>migration_index_state\<close>, \<open>to_MigrationIndexState\<close>); what
    \<open>updateIndexState\<close> writes (\<open>updateIndexState_Inr\<close>), when it succeeds, the
    default cursor (C9).
  \<^item> \<open>Transaction\<close>: \<open>handleWithState\<close> (24-44); \<open>applyBlock\<close> of the spec (4.1),
    composed as demux composes it (updaters, then \<open>updateIndexState\<close>, in
    \<open>handleWithState\<close>); \<open>apply_blocks\<close>, a run over blocks; when the transaction
    body commits (\<open>handleActions_total\<close>). Claims C3-C6, C10.
  \<^item> \<open>Rollback\<close>: \<open>rollbackTo\<close> (88-104) and its loop; the restoration induction
    (\<open>undo_applied_block\<close>, \<open>rollback_loop_restores\<close>); where a failing loop
    stops (\<open>rollback_loop_Inl\<close>); what a committed loop adds to the audit log
    (\<open>rollback_loop_log\<close>); the rollback of a fresh schema's first block and where the
    next cursor row lands (\<open>rollback_genesis_one_block\<close>, \<open>cursor_row_moved\<close>);
    that every operation keeps \<open>wf_world\<close> (\<open>rollbackTo_wf\<close>, with
    \<open>applyBlock_wf\<close> of \<open>Transaction\<close>); claims C1, C2, the round trip C13 and the
    failure path C20.
  \<^item> \<open>Engine\<close>: the two entry points as a \<open>datatype\<close> of operations
    (\<open>engine_op\<close>) with a step function \<open>run_op\<close> and runs \<open>run_ops\<close>, for several
    handlers on one database and one audit log; the per-schema relation \<open>agrees_on\<close>
    and the rollback induction over interleaved runs (\<open>rollback_loop_isolated\<close>);
    the invariant \<open>rows_own\<close> (every record row names a block's transaction) and
    \<open>shrinks_only\<close>, the effect of a rollback on the schemas; claims C14, C23.
  \<^item> \<open>Driver\<close>: demux's driver (spec section 2; not in this repository) as an
    \<open>inductive\<close> labelled step relation \<open>driver_step\<close> over the in-memory
    \<open>lastProcessedBlockNumber\<close> and the database, with events from the reader (next
    block, fork, restart), and its runs \<open>driver_run\<close>; claim C15.
  \<^item> \<open>History\<close>: the spec's invariant of the Index State Store over the driver's
    reachable states. \<open>undo_chain\<close> is the history behind the rows of
    \<open>_block_number_txid\<close>, a sequence of past states in which each row's audited
    transaction is a faithful run from one to the next; \<open>driver_inv\<close> adds contiguous
    keys, the driver's block, and \<open>ids_along\<close>: no state of the history holds an
    \<open>_index_state\<close> id the serial sequence has not handed out (rollbacks only extend
    the audit log, \<open>log_extends\<close>, so the history survives them). Every step keeps it (\<open>driver_step_inv\<close>, one lemma per
    rule), and a rollback over a chain undoes exactly a suffix (\<open>rollback_loop_chain\<close>,
    \<open>rollbackTo_chain\<close>); the spec's contract for the records as an abstract
    machine on lists of block numbers (\<open>keys_step\<close>) with the abstraction
    \<open>bnt_keys\<close>, and the simulation of every driver step by it; claims C17-C19 and
    the progress claim C22, the bounds C24, the undo order C25.
  \<^item> \<open>JsonReader\<close>: \<open>JsonActionReader\<close> (constructor, \<open>getHeadBlockNumber\<close>,
    \<open>getBlock\<close>), and the reference lookup by number \<open>find_block\<close>; the reader's answers on a well-numbered chain
    (\<open>numbered_head\<close>, \<open>numbered_getBlock\<close>); claims C11, C12, C21.
  \<^item> \<open>Sync\<close>: reader and driver composed: \<open>catch_up\<close>, the loop that asks the
    reader for its head and feeds it the blocks up to it, a \<open>function\<close> terminating by
    the distance to the head; its runs are driver runs (C26), and from the head of the
    records it reaches the reader's head (C27).
  \<^item> this theory: concrete worlds (one schema, and two schemas with interleaved
    blocks), the claims spanning components (C7, C8, C16, C28) and a witness
    for every claim with hypotheses.

  \<^bold>\<open>Main results.\<close> C1: blocks applied above \<open>T\<close> to a well-formed world and then
  rolled back to \<open>T\<close> leave every table of every schema exactly as before (so the
  schema-global undo does not reach other schemas: each undone identifier belongs to a
  transaction of this handler). C2: the undo calls go strictly highest block first,
  once per row above \<open>T\<close>, each committing one new transaction that records the
  inverse of the undone transaction's changes. C3/C4: a failed block leaves no trace in tables or audit log,
  and the callback's error is re-thrown as is. C5: the identifier recorded for a block is
  the one its changes are audited under. C6: the cursor reads back as written, provided
  it sits at id 1 or the sequence is fresh. C7 shows that proviso is needed: on any fresh
  schema, after one block and a rollback to block 0, the next block applied stores its
  cursor at an id above 1 and \<open>loadIndexState\<close> returns the default (a defect of
  \<open>updateIndexState\<close>, which saves without an id, given the serial \<open>id\<close> of the
  migration). C8: the spec's suffix property for blocks \<open>1..K\<close>. C10: \<open>applyBlock\<close> commits when the
  callback succeeds and its keys are free. C13: the spec's round trip (apply, roll back,
  re-apply with other payloads) leaves one \<open>_block_number_txid\<close> row per block and the
  cursor of the last re-applied block, when the cursor sits at id 1 before the run.
  C14 answers the spec's open question on multi-schema deployments: with handlers on
  several schemas applying blocks in any interleaving, a rollback of one handler restores
  its schema and leaves every other schema as it was, because every transaction it undoes
  is one of its own blocks and wrote its schema only. C15/C16 follow the cursor defect
  of C7 into the driver: from any fresh schema, the driver applies a block 1, takes a fork
  to block 0, applies a block 1 again and restarts (every step succeeds when the updaters
  do not throw), and ends in a state after which every block, fork and restart leaves it
  at block 0 with the database unchanged, so the handler never applies a block again. C17/C18 are the spec's invariants over every
  state the driver reaches from a fresh schema: \<open>_block_number_txid\<close> holds exactly the
  blocks \<open>1..k\<close>, the driver is at \<open>k\<close> (or at 0 once the cursor is lost), and a fork
  below the driver's block is always rolled back without error, removing exactly the
  rows above the fork. C19 is the refinement behind them: every step of the driver moves
  the recorded block numbers as the abstract contract does (append the next block, cut
  back to a prefix, or nothing). C20 is the failure path of \<open>rollbackTo\<close>: the undo's
  own error is re-thrown, the rows above the failing one stay undone, and the completion
  line is never printed; outside the driver's reachable states (where C18 rules failure
  out) this happens, for instance, when a recorded deletion no longer matches the table.
  C21: the test reader's positional \<open>getBlock\<close> agrees with a search of the chain by block
  number on every input, errors included, when the chain is well numbered. C22 is the
  converse of C15: in every reachable state in which the driver is at the head of
  \<open>_block_number_txid\<close>, the next block whose updaters succeed is applied; the cursor's
  serial id is always free because every id in the table, now and in every state a
  rollback returns to, was drawn from the sequence. So the driver stops only by losing its
  cursor. C23 extends C14 to interleavings in which the other handlers also roll back:
  their undos touch only their own schemas, because every record row names a transaction
  of its own schema that deleted no record row, an invariant the engine keeps. C24 bounds
  the bookkeeping tables in every reachable state: the driver's block is at most the
  number of recorded blocks, every \<open>_index_state\<close> id is at most the sequence's last
  value, and the table has at most one row more than the ids handed out. C25: in every
  reachable state the rows a rollback queries, highest block first, carry strictly
  decreasing transaction identifiers, so blocks are undone in reverse commit order.
  C26/C27 compose the reader with the handler: every run of the catch-up loop is a run of
  the driver, so C17-C25 hold along it, and from a reachable state at the head of its
  records, over a well-numbered chain with updaters that do not throw, the loop applies
  every block up to the reader's head and stops there without error. C28 shows the
  cursor defect from the test harness: a driver at block 0 over any well-formed database
  that records block 1 (where C16 leaves it) fails at once, under the catch-up loop and
  any well-numbered reader, on block 1 and changes no table.

  \<^bold>\<open>Modelling choices.\<close> Block numbers and identifiers are \<open>nat\<close>: Postgres's 32-bit
  \<open>integer\<close> and 64-bit \<open>txid\<close> bounds are not modelled. A mutation callback is a
  function from the identifier and the rows it sees to its row writes or an error
  message; any deterministic callback has this form. The code's loops are structural
  recursion over the queried rows; the one unbounded loop, the catch-up loop of
  \<open>Sync\<close>, terminates by the measure head minus current block, which every applied block
  decreases and every error ends. So every definition is total; no fuel is needed.
  \<^bold>\<open>Not modelled:\<close> serializable-isolation conflicts and concurrent writers (one writer
  is assumed, as the spec's section 5 requires of the driver); the reader's fork
  detection and seeking (they appear only as the driver's events; the catch-up loop of
  \<open>Sync\<close> covers the reader's forward reading); the migration that
  creates the schema; the handler's effects and logging besides \<open>console.info\<close> in
  \<open>rollbackTo\<close>; the options of the transaction (lines 39-43: serializable isolation
  matters only under concurrency, which is not modelled); the stray closing braces at
  lines 85-86, which make the file fail to compile as written (the model reads the class
  as if they were absent).

  \<^bold>\<open>Open.\<close> Interleavings in which the handler itself rolls back between other
  handlers' steps are not covered: C23 lets only the others roll back, and the undo
  history of \<open>History\<close> (\<open>undo_chain\<close>) relates states of the whole database, so
  covering them needs a history per schema. The comparison of
  \<open>previousBlockHash\<close> with the last processed hash is fork detection, which belongs to
  demux's reader; the driver model receives its outcome as the \<open>ForkAt\<close> event, which is
  all the handler of this repository sees of it. The widths of the columns (\<open>integer\<close> or \<open>bigint\<close>) are fixed by the
  migration, which is not in this repository, so their bounds stay out of the model.
\<close>

section \<open>Concrete worlds\<close>

definition fresh_tables :: "(nat, nat) tables" where
  "fresh_tables = \<lparr>index_state = [], block_number_txid = [], rows = Map.empty\<rparr>"

definition fresh_world :: "(nat, nat) world" where
  "fresh_world = \<lparr>schemas = [''public'' \<mapsto> fresh_tables], audit_log = [], next_txid = 100,
                  id_seq = (\<lambda>_. 0), console = []\<rparr>"

definition public_handler :: handler where
  "public_handler = new_MassiveActionHandler [''v1''] None"

definition demo_block :: "nat \<Rightarrow> string \<Rightarrow> unit block" where
  "demo_block n hash = \<lparr>blockInfo = \<lparr>blockNumber = n, blockHash = hash, previousBlockHash = ''''\<rparr>,
                        actions = []\<rparr>"

definition put_row :: "nat \<Rightarrow> (nat, nat) mutation" where
  "put_row k t rs = Inr [(k, Some t)]"

definition failing_mutation :: "(nat, nat) mutation" where
  "failing_mutation t rs = Inl ''updater failed''"

definition two_blocks :: "(unit block \<times> (nat, nat) mutation) list" where
  "two_blocks = [(demo_block 1 ''a'', put_row 1), (demo_block 2 ''b'', put_row 2)]"

declare fresh_tables_def [eval_defs]
  fresh_world_def [eval_defs]
  public_handler_def [eval_defs]
  demo_block_def [eval_defs]
  put_row_def [eval_defs]
  failing_mutation_def [eval_defs]
  two_blocks_def [eval_defs]

definition demo_reader :: "unit json_reader" where
  "demo_reader = new_JsonActionReader [demo_block 1 ''a'', demo_block 2 ''b''] None None None"

abbreviation two_applied :: "(nat, nat) world" where
  "two_applied \<equiv> snd (apply_blocks public_handler False ''v1'' two_blocks fresh_world)"

text \<open>The updaters the tests pass with each block: write the block's number.\<close>

definition demo_updaters :: "unit block \<Rightarrow> (nat, nat) mutation" where
  "demo_updaters b = put_row (blockNumber (blockInfo b))"

declare demo_reader_def [eval_defs]
  demo_updaters_def [eval_defs]

definition other_handler :: handler where
  "other_handler = new_MassiveActionHandler [''v1''] (Some ''other'')"

definition two_schema_world :: "(nat, nat) world" where
  "two_schema_world = fresh_world\<lparr>schemas := [''public'' \<mapsto> fresh_tables, ''other'' \<mapsto> fresh_tables]\<rparr>"

definition interleaved_ops :: "(unit, nat, nat) engine_op list" where
  "interleaved_ops =
     [ApplyBlockOp public_handler (demo_block 1 ''a'') False ''v1'' (put_row 1),
      ApplyBlockOp other_handler (demo_block 1 ''x'') False ''v1'' (put_row 5),
      ApplyBlockOp public_handler (demo_block 2 ''b'') False ''v1'' (put_row 2),
      ApplyBlockOp other_handler (demo_block 2 ''y'') False ''v1'' (put_row 6)]"

definition interleaved_rollback_ops :: "(unit, nat, nat) engine_op list" where
  "interleaved_rollback_ops =
     [ApplyBlockOp public_handler (demo_block 1 ''a'') False ''v1'' (put_row 1),
      ApplyBlockOp other_handler (demo_block 1 ''x'') False ''v1'' (put_row 5),
      RollbackToOp other_handler 0,
      ApplyBlockOp public_handler (demo_block 2 ''b'') False ''v1'' (put_row 2),
      ApplyBlockOp other_handler (demo_block 1 ''y'') False ''v1'' (put_row 6)]"

declare other_handler_def [eval_defs]
  interleaved_rollback_ops_def [eval_defs]
  two_schema_world_def [eval_defs]
  interleaved_ops_def [eval_defs]

abbreviation interleaved :: "(nat, nat) world" where
  "interleaved \<equiv> snd (run_ops interleaved_ops two_schema_world)"

abbreviation interleaved_rollback :: "(nat, nat) world" where
  "interleaved_rollback \<equiv> snd (run_ops interleaved_rollback_ops two_schema_world)"

abbreviation one_applied :: "(nat, nat) world" where
  "one_applied \<equiv> snd (applyBlock public_handler (demo_block 1 ''a'') False ''v1'' (put_row 1) fresh_world)"

abbreviation replayed :: "(nat, nat) world" where
  "replayed \<equiv> snd (apply_blocks public_handler True ''v2'' [(demo_block 2 ''c'', put_row 7)]
     (snd (rollbackTo public_handler 1
        (snd (apply_blocks public_handler False ''v1'' [(demo_block 2 ''b'', put_row 2)] one_applied)))))"

text \<open>A database in which transaction 7, recorded for block 1, deleted the cursor row
  and the row has since been re-created: undoing 7 re-inserts it and collides.\<close>

definition conflict_world :: "(nat, nat) world" where
  "conflict_world =
     \<lparr>schemas = [''public'' \<mapsto> \<lparr>index_state = [(1, \<lparr>block_number = 1, block_hash = ''a'', is_replay = False,
                                    handler_version_name = ''v1''\<rparr>)],
                               block_number_txid = [(1, 7)], rows = Map.empty\<rparr>],
      audit_log = [(7, ''public'', IndexStateDelete 1 \<lparr>block_number = 0, block_hash = ''x'', is_replay = False,
                                    handler_version_name = ''v1''\<rparr>)],
      next_txid = 8, id_seq = (\<lambda>_. 1), console = []\<rparr>"

declare conflict_world_def [eval_defs]

abbreviation lost_cursor :: "(nat, nat) world" where
  "lost_cursor \<equiv> snd (applyBlock public_handler (demo_block 1 ''b'') False ''v1'' (put_row 1)
     (snd (rollbackTo public_handler 0 one_applied)))"

abbreviation two_by_driver :: "(nat, nat) world" where
  "two_by_driver \<equiv> snd (applyBlock public_handler (demo_block 2 ''b'') False ''v1'' (put_row 2) one_applied)"

abbreviation lost_cursor_events :: "(unit, nat, nat) driver_event list" where
  "lost_cursor_events \<equiv> [NextBlock (demo_block 1 ''a'') False ''v1'' (put_row 1), ForkAt 0,
     NextBlock (demo_block 1 ''b'') False ''v1'' (put_row 1), Restart]"

abbreviation rolled_to_genesis :: "(nat, nat) world" where
  "rolled_to_genesis \<equiv> snd (rollbackTo public_handler 0 one_applied)"

section \<open>Concrete driver steps\<close>

lemma fresh_start:
  shows "wf_world fresh_world" and "schemas fresh_world (dbSchema public_handler) = Some fresh_tables"
    and "block_number_txid fresh_tables = []" and "index_state fresh_tables = []"
  by (simp_all add: eval_defs)

lemma driver_step_block_a:
  "driver_step public_handler (NextBlock (demo_block 1 ''a'') False ''v1'' (put_row 1))
     (0, fresh_world) (Suc 0, one_applied)"
  by (rule driver_step.block_applied) (simp_all add: eval_defs)

lemma driver_step_block_b:
  "driver_step public_handler (NextBlock (demo_block 2 ''b'') False ''v1'' (put_row 2))
     (Suc 0, one_applied) (Suc (Suc 0), two_by_driver)"
  by (rule driver_step.block_applied) (simp_all add: eval_defs)

lemma driver_step_fork_genesis:
  "driver_step public_handler (ForkAt 0 :: (unit, nat, nat) driver_event) (Suc 0, one_applied) (0, rolled_to_genesis)"
proof -
  have "driver_step public_handler (ForkAt 0 :: (unit, nat, nat) driver_event)
      (Suc 0, one_applied) (mi_blockNumber (to_MigrationIndexState defaultIndexState), rolled_to_genesis)"
    by (rule driver_step.rolled_back) (simp add: eval_defs)+
  then show ?thesis by (simp add: defaultIndexState_def to_MigrationIndexState_def)
qed

lemma driver_run_two_blocks:
  "driver_run public_handler
     [NextBlock (demo_block 1 ''a'') False ''v1'' (put_row 1), NextBlock (demo_block 2 ''b'') False ''v1'' (put_row 2)]
     (0, fresh_world) (Suc (Suc 0), two_by_driver)"
  using driver_step_block_a driver_step_block_b by (blast intro: driver_run.intros)

section \<open>Properties across components\<close>

text \<open>C7 (finding: the cursor is lost after a rollback to genesis): on any fresh schema,
  apply a block numbered above 0, roll back to block 0 and apply any block: when all
  three succeed, \<open>loadIndexState\<close> returns the default cursor (block 0), not the block
  just applied, and block 1's row of \<open>_block_number_txid\<close> is there all the same. The
  undo of the first block deleted the cursor row, but the serial sequence behind
  \<open>_index_state.id\<close> is not rolled back, so \<open>save\<close> (called without an id because
  \<open>findOne({id: 1})\<close> found nothing) inserts the new cursor at an id above 1, where
  \<open>findOne({id: 1})\<close> never looks.\<close>

theorem cursor_lost_after_rollback_to_genesis:
  assumes "wf_world w0" and "schemas w0 (dbSchema h) = Some tb0"
    and "block_number_txid tb0 = []" and "index_state tb0 = []"
    and "0 < blockNumber (blockInfo b1)"
    and "applyBlock h b1 isReplay1 hvn1 m1 w0 = (Inr (), w1)"
    and "rollbackTo h 0 w1 = (Inr (), w2)"
    and "applyBlock h b2 isReplay2 hvn2 m2 w2 = (Inr (), w3)"
  shows "loadIndexState h w3 = (Inr (to_MigrationIndexState defaultIndexState), w3)
     \<and> (\<exists>tb3. schemas w3 (dbSchema h) = Some tb3 \<and> map_of (index_state tb3) 1 = None
          \<and> map fst (block_number_txid tb3) = [blockNumber (blockInfo b2)])"
proof -
  from cursor_row_moved [OF assms] obtain tb3 where
    tb3: "schemas w3 (dbSchema h) = Some tb3" and one: "map_of (index_state tb3) 1 = None"
    and k: "map fst (block_number_txid tb3) = [blockNumber (blockInfo b2)]"
    by (elim exE conjE) (rule that)
  show ?thesis
    by (rule conjI [OF loadIndexState_absent [OF tb3 one] exI [of _ tb3]]) (use one in \<open>simp add: tb3 k\<close>)
qed

theorem cursor_lost_after_rollback_to_genesis_witness:
  "loadIndexState public_handler lost_cursor = (Inr (to_MigrationIndexState defaultIndexState), lost_cursor)
   \<and> (\<exists>tb3. schemas lost_cursor (dbSchema public_handler) = Some tb3 \<and> map_of (index_state tb3) 1 = None
        \<and> map fst (block_number_txid tb3) = [1])"
proof -
  have e: "0 < blockNumber (blockInfo (demo_block 1 ''a''))"
    and f: "applyBlock public_handler (demo_block 1 ''a'') False ''v1'' (put_row 1) fresh_world = (Inr (), one_applied)"
    and g: "rollbackTo public_handler 0 one_applied = (Inr (), rolled_to_genesis)"
    and k: "applyBlock public_handler (demo_block 1 ''b'') False ''v1'' (put_row 1) rolled_to_genesis =
        (Inr (), lost_cursor)"
    by (simp_all add: eval_defs)
  from cursor_lost_after_rollback_to_genesis [OF fresh_start e f g k] show ?thesis
    by (simp add: demo_block_def)
qed

text \<open>C8 (rollback suffix): on a schema whose \<open>_block_number_txid\<close> starts empty, apply
  blocks \<open>1 .. K\<close> in order, then roll back to \<open>T\<close>: the rollback succeeds and leaves
  exactly the rows of blocks \<open>1 .. T\<close>, in the order they were written.\<close>

theorem rollback_suffix:
  assumes "wf_world w0" and "schemas w0 (dbSchema h) = Some tb0" and "block_number_txid tb0 = []"
    and "apply_blocks h isReplay hvn (bms1 @ bms2) w0 = (Inr (), w1)"
    and "map (\<lambda>bm. blockNumber (blockInfo (fst bm))) bms1 = [1..<Suc T]"
    and "map (\<lambda>bm. blockNumber (blockInfo (fst bm))) bms2 = [Suc T..<Suc K]"
  shows "\<exists>w2 tb2. rollbackTo h T w1 = (Inr (), w2) \<and> schemas w2 (dbSchema h) = Some tb2
           \<and> map fst (block_number_txid tb2) = [1..<Suc T]"
proof -
  from assms(4) obtain wm where r1: "apply_blocks h isReplay hvn bms1 w0 = (Inr (), wm)"
    and r2: "apply_blocks h isReplay hvn bms2 wm = (Inr (), w1)"
    by (auto simp: apply_blocks_append)
  from apply_blocks_keys [OF assms(2) r1] assms(3,5) obtain tbm where
    tbm: "schemas wm (dbSchema h) = Some tbm" and keys: "map fst (block_number_txid tbm) = [1..<Suc T]"
    by auto
  have below: "\<forall>b \<in> set (map fst (block_number_txid tbm)). b \<le> T" by (auto simp: keys)
  from assms(6) have inc: "sorted_wrt (<) (map (\<lambda>bm. blockNumber (blockInfo (fst bm))) bms2)"
    by (simp del: upt_Suc)
  have above: "\<forall>bm \<in> set bms2. T < blockNumber (blockInfo (fst bm))"
  proof
    fix bm assume "bm \<in> set bms2"
    then have "blockNumber (blockInfo (fst bm)) \<in> set (map (\<lambda>bm. blockNumber (blockInfo (fst bm))) bms2)"
      by simp
    with assms(6) show "T < blockNumber (blockInfo (fst bm))" by (simp del: upt_Suc)
  qed
  from rollback_loop_restores [OF apply_blocks_wf [OF assms(1) r1] tbm below r2 inc above agrees_refl]
  obtain tb1 w' where "schemas w1 (dbSchema h) = Some tb1"
    "rollback_loop (rows_above_desc T (block_number_txid tb1)) w1 = (Inr (), w')"
    "schemas w' = schemas wm"
    by blast
  with tbm keys show ?thesis
    by (auto simp: rollbackTo_def where_block_number_gt_def tables_of_def bind_exc_def console_info_def)
qed

section \<open>Witnesses\<close>

text \<open>Each theorem with hypotheses, applied where they hold: the concrete worlds above,
  evaluated by the simplifier.\<close>

theorem rollbackTo_restores_witness:
  "\<exists>w2. rollbackTo public_handler 0 two_applied = (Inr (), w2) \<and> schemas w2 = schemas fresh_world"
proof -
  have a: "wf_world fresh_world" and b: "schemas fresh_world (dbSchema public_handler) = Some fresh_tables"
    and c: "\<forall>b \<in> set (map fst (block_number_txid fresh_tables)). b \<le> 0"
    and d: "apply_blocks public_handler False ''v1'' two_blocks fresh_world = (Inr (), two_applied)"
    and e: "sorted_wrt (<) (map (\<lambda>bm. blockNumber (blockInfo (fst bm))) two_blocks)"
    and f: "\<forall>bm \<in> set two_blocks. 0 < blockNumber (blockInfo (fst bm))"
    by (simp_all add: eval_defs)
  show ?thesis by (rule rollbackTo_restores [OF a b c d e f])
qed

theorem rollbackTo_undo_order_witness:
  "\<exists>rs. sorted_wrt (>) (map fst rs)
     \<and> set rs = {r \<in> set (block_number_txid (the (schemas two_applied ''public''))). 0 < fst r}
     \<and> console (snd (rollbackTo public_handler 0 two_applied)) =
         console two_applied @ map (\<lambda>r. RollingBack (fst r)) rs @ [RollbackComplete]
     \<and> audit_log (snd (rollbackTo public_handler 0 two_applied)) = audit_log two_applied @
         concat (map (\<lambda>(u, r). tag u (inverse_changes (txn_changes (snd r) (audit_log two_applied))))
                     (zip [next_txid two_applied..<next_txid two_applied + length rs] rs))
     \<and> next_txid (snd (rollbackTo public_handler 0 two_applied)) = next_txid two_applied + length rs"
proof -
  have a: "wf_world two_applied"
    and b: "schemas two_applied (dbSchema public_handler) = Some (the (schemas two_applied ''public''))"
    and c: "\<forall>r \<in> set (block_number_txid (the (schemas two_applied ''public''))). snd r < next_txid two_applied"
    and d: "rollbackTo public_handler 0 two_applied = (Inr (), snd (rollbackTo public_handler 0 two_applied))"
    by (simp_all add: eval_defs)
  show ?thesis using rollbackTo_undo_order [OF a b c d] .
qed

theorem applyBlock_atomic_witness:
  "applyBlock public_handler (demo_block 1 ''a'') False ''v1'' failing_mutation fresh_world =
     (Inl (ApplicationError ''updater failed''), fresh_world\<lparr>next_txid := 101\<rparr>)
   \<and> schemas (fresh_world\<lparr>next_txid := 101\<rparr>) = schemas fresh_world
   \<and> audit_log (fresh_world\<lparr>next_txid := 101\<rparr>) = audit_log fresh_world"
proof -
  have r: "applyBlock public_handler (demo_block 1 ''a'') False ''v1'' failing_mutation fresh_world =
     (Inl (ApplicationError ''updater failed''), fresh_world\<lparr>next_txid := 101\<rparr>)"
    by (simp add: eval_defs)
  from r applyBlock_atomic [OF r] show ?thesis by simp
qed

theorem applyBlock_application_error_witness:
  "applyBlock public_handler (demo_block 1 ''a'') False ''v1'' failing_mutation fresh_world =
     (Inl (ApplicationError ''updater failed''), fresh_world\<lparr>next_txid := Suc (next_txid fresh_world)\<rparr>)"
proof -
  have a: "schemas fresh_world (dbSchema public_handler) = Some fresh_tables"
    and b: "failing_mutation (next_txid fresh_world) (rows fresh_tables) = Inl ''updater failed''"
    by (simp_all add: eval_defs)
  show ?thesis
    by (rule applyBlock_application_error [where mutate = failing_mutation and w = fresh_world, OF a b])
qed

theorem applyBlock_records_txid_witness:
  "\<exists>tb' cs. schemas (snd (applyBlock public_handler (demo_block 1 ''a'') False ''v1'' (put_row 1) fresh_world)) ''public'' = Some tb'
     \<and> block_number_txid tb' = [(1, 100)]
     \<and> apply_changes cs (schemas fresh_world) = Inr (schemas (snd (applyBlock public_handler (demo_block 1 ''a'') False ''v1'' (put_row 1) fresh_world)))
     \<and> audit_log (snd (applyBlock public_handler (demo_block 1 ''a'') False ''v1'' (put_row 1) fresh_world)) = tag 100 cs"
proof -
  have a: "applyBlock public_handler (demo_block 1 ''a'') False ''v1'' (put_row 1) fresh_world =
      (Inr (), snd (applyBlock public_handler (demo_block 1 ''a'') False ''v1'' (put_row 1) fresh_world))"
    and b: "schemas fresh_world (dbSchema public_handler) = Some fresh_tables"
    by (simp_all add: eval_defs)
  from applyBlock_records_txid [OF a b] show ?thesis by (simp add: eval_defs)
qed

theorem applyBlock_loadIndexState_witness:
  "loadIndexState public_handler (snd (applyBlock public_handler (demo_block 1 ''a'') False ''v1'' (put_row 1) fresh_world)) =
     (Inr \<lparr>mi_blockNumber = 1, mi_blockHash = ''a'', mi_handlerVersionName = ''v1'', mi_isReplay = False\<rparr>,
      snd (applyBlock public_handler (demo_block 1 ''a'') False ''v1'' (put_row 1) fresh_world))"
proof -
  have a: "applyBlock public_handler (demo_block 1 ''a'') False ''v1'' (put_row 1) fresh_world =
      (Inr (), snd (applyBlock public_handler (demo_block 1 ''a'') False ''v1'' (put_row 1) fresh_world))"
    and b: "schemas fresh_world (dbSchema public_handler) = Some fresh_tables"
    and c: "map_of (index_state fresh_tables) 1 \<noteq> None \<or> id_seq fresh_world (dbSchema public_handler) = 0"
    by (simp_all add: eval_defs)
  from applyBlock_loadIndexState [OF a b c] show ?thesis by (simp add: demo_block_def)
qed

theorem rollback_suffix_witness:
  "\<exists>w2 tb2. rollbackTo public_handler 1 two_applied = (Inr (), w2)
     \<and> schemas w2 (dbSchema public_handler) = Some tb2 \<and> map fst (block_number_txid tb2) = [1..<Suc 1]"
proof -
  have a: "wf_world fresh_world" and b: "schemas fresh_world (dbSchema public_handler) = Some fresh_tables"
    and c: "block_number_txid fresh_tables = []"
    and d: "apply_blocks public_handler False ''v1''
              ([(demo_block 1 ''a'', put_row 1)] @ [(demo_block 2 ''b'', put_row 2)]) fresh_world = (Inr (), two_applied)"
    and e: "map (\<lambda>bm. blockNumber (blockInfo (fst bm))) [(demo_block 1 ''a'', put_row 1)] = [1..<Suc 1]"
    and f: "map (\<lambda>bm. blockNumber (blockInfo (fst bm))) [(demo_block 2 ''b'', put_row 2)] = [Suc 1..<Suc 2]"
    by (simp_all add: eval_defs upt_rec)
  show ?thesis by (rule rollback_suffix [OF a b c d e f])
qed

theorem loadIndexState_fresh_witness:
  "loadIndexState public_handler fresh_world =
     (Inr \<lparr>mi_blockNumber = 0, mi_blockHash = '''', mi_handlerVersionName = ''v1'', mi_isReplay = False\<rparr>, fresh_world)"
proof -
  have a: "schemas fresh_world (dbSchema public_handler) = Some fresh_tables"
    and b: "index_state fresh_tables = []"
    by (simp_all add: eval_defs)
  show ?thesis by (rule loadIndexState_fresh [OF a b])
qed

theorem applyBlock_succeeds_witness:
  "\<exists>w'. applyBlock public_handler (demo_block 1 ''a'') False ''v1'' (put_row 1) fresh_world = (Inr (), w')"
proof -
  have a: "schemas fresh_world (dbSchema public_handler) = Some fresh_tables"
    and b: "put_row 1 (next_txid fresh_world) (rows fresh_tables) = Inr [(1, Some 100)]"
    and c: "blockNumber (blockInfo (demo_block 1 ''a'')) \<notin> set (map fst (block_number_txid fresh_tables))"
    and d: "map_of (index_state fresh_tables) 1 \<noteq> None
            \<or> Suc (id_seq fresh_world (dbSchema public_handler)) \<notin> set (map fst (index_state fresh_tables))"
    by (simp_all add: eval_defs)
  show ?thesis
    by (rule applyBlock_succeeds [where mutate = "put_row 1" and w = fresh_world, OF a b c d])
qed

theorem numbered_reader_witness:
  "getHeadBlockNumber demo_reader = Inr 2
   \<and> getBlock demo_reader 1 = Inr (demo_block 1 ''a'') \<and> getBlock demo_reader 2 = Inr (demo_block 2 ''b'')"
proof -
  have a: "numbered (blockchain demo_reader)" and b: "blockchain demo_reader \<noteq> []"
    and len: "length (blockchain demo_reader) = 2"
    by (simp_all add: eval_defs)
  from numbered_reader [OF a b] have head: "getHeadBlockNumber demo_reader = Inr (length (blockchain demo_reader))"
    and all: "\<forall>k \<in> {1..length (blockchain demo_reader)}. getBlock demo_reader (int k) = Inr (blockchain demo_reader ! (k - 1))"
    by blast+
  from len have "(1::nat) \<in> {1..length (blockchain demo_reader)}" "(2::nat) \<in> {1..length (blockchain demo_reader)}"
    by simp_all
  with all have "getBlock demo_reader (int 1) = Inr (blockchain demo_reader ! (1 - 1))"
    "getBlock demo_reader (int 2) = Inr (blockchain demo_reader ! (2 - 1))"
    by blast+
  with head len show ?thesis by (simp add: demo_reader_def new_JsonActionReader_def)
qed

theorem getHeadBlockNumber_getBlock_witness:
  "getBlock demo_reader 2 = Inr (demo_block 2 ''b'')"
proof -
  have a: "getHeadBlockNumber demo_reader = Inr 2" by (simp add: eval_defs)
  from getHeadBlockNumber_getBlock [OF a] show ?thesis by (simp add: demo_reader_def new_JsonActionReader_def)
qed


theorem rollback_reapply_roundtrip_witness:
  "\<exists>tb3. schemas replayed ''public'' = Some tb3 \<and> map fst (block_number_txid tb3) = [1, 2]
     \<and> loadIndexState public_handler replayed =
         (Inr \<lparr>mi_blockNumber = 2, mi_blockHash = ''c'', mi_handlerVersionName = ''v2'', mi_isReplay = True\<rparr>, replayed)"
proof -
  let ?w1 = "snd (apply_blocks public_handler False ''v1'' [(demo_block 2 ''b'', put_row 2)] one_applied)"
  let ?w2 = "snd (rollbackTo public_handler 1 ?w1)"
  have a: "wf_world one_applied"
    and b: "schemas one_applied (dbSchema public_handler) = Some (the (schemas one_applied ''public''))"
    and c: "map_of (index_state (the (schemas one_applied ''public''))) 1 \<noteq> None"
    and d: "\<forall>b \<in> set (map fst (block_number_txid (the (schemas one_applied ''public'')))). b \<le> 1"
    and e: "apply_blocks public_handler False ''v1'' [(demo_block 2 ''b'', put_row 2)] one_applied = (Inr (), ?w1)"
    and f: "sorted_wrt (<) (map (\<lambda>bm. blockNumber (blockInfo (fst bm))) [(demo_block 2 ''b'', put_row 2)])"
    and g: "\<forall>bm \<in> set [(demo_block 2 ''b'', put_row 2)]. 1 < blockNumber (blockInfo (fst bm))"
    and h: "rollbackTo public_handler 1 ?w1 = (Inr (), ?w2)"
    and i: "apply_blocks public_handler True ''v2'' [(demo_block 2 ''c'', put_row 7)] ?w2 = (Inr (), replayed)"
    and j: "[(demo_block 2 ''c'', put_row 7)] \<noteq> []"
    by (simp_all add: eval_defs)
  from rollback_reapply_roundtrip [OF a b c d e f g h i j] show ?thesis by (simp add: eval_defs)
qed


theorem rollbackTo_isolated_witness:
  "\<exists>w2. rollbackTo public_handler 0 interleaved = (Inr (), w2)
     \<and> schemas w2 ''public'' = Some fresh_tables \<and> schemas w2 ''other'' = schemas interleaved ''other''"
proof -
  have a: "wf_world two_schema_world"
    and b: "schemas two_schema_world (dbSchema public_handler) = Some fresh_tables"
    and c: "\<forall>b \<in> set (map fst (block_number_txid fresh_tables)). b \<le> 0"
    and d: "run_ops interleaved_ops two_schema_world = (Inr (), interleaved)"
    and e: "list_all is_apply interleaved_ops"
    and f: "sorted_wrt (<) (map op_block_number
              (filter (\<lambda>eo. op_schema eo = dbSchema public_handler) interleaved_ops))"
    and g: "\<forall>eo \<in> set interleaved_ops. op_schema eo = dbSchema public_handler \<longrightarrow> 0 < op_block_number eo"
    and o: "''other'' \<noteq> dbSchema public_handler" and p: "dbSchema public_handler = ''public''"
    by (simp_all add: eval_defs)
  from rollbackTo_isolated [OF a b c d e f g] o p b show ?thesis by auto
qed


text \<open>C16 (finding: the lost cursor is reachable by the driver): from any fresh schema, a
  driver that applies a block 1, sees a fork at block 0 (rolls back to 0 and reloads the
  cursor), applies a block 1 of the new chain and restarts, with updaters that never
  throw, completes every one of these steps and ends at block 0, over a well-formed
  database that records block 1 and has no cursor row at id 1: exactly the state from
  which \<open>driver_stuck_after_cursor_loss\<close> shows it never moves again.\<close>

theorem driver_reaches_lost_cursor:
  assumes "wf_world w0" and "schemas w0 (dbSchema h) = Some tb0"
    and "block_number_txid tb0 = []" and "index_state tb0 = []"
    and "blockNumber (blockInfo b) = 1" and "blockNumber (blockInfo b') = 1"
    and "\<forall>t rs. \<exists>ws. m t rs = Inr ws" and "\<forall>t rs. \<exists>ws. m' t rs = Inr ws"
  shows "\<exists>w'. driver_run h [NextBlock b r hvn m, ForkAt 0, NextBlock b' r' hvn' m', Restart] (0, w0) (0, w')
     \<and> wf_world w' \<and> (\<exists>tb. schemas w' (dbSchema h) = Some tb
        \<and> map_of (index_state tb) 1 = None \<and> 1 \<in> set (map fst (block_number_txid tb)))"
proof -
  let ?s = "dbSchema h"
  have inv0: "driver_inv h (0, w0)" by (rule driver_inv_start [OF assms(1-4)])
  have n0: "0 = length (block_number_txid tb0)" and num: "blockNumber (blockInfo b) = Suc 0"
    and num': "blockNumber (blockInfo b') = Suc 0"
    using assms(3,5,6) by simp_all
  from assms(7) obtain ws where "m (next_txid w0) (rows tb0) = Inr ws" by blast
  from driver_inv_progress [where mutate = m and isReplay = r and hvn = hvn, OF inv0 assms(2) n0 num this]
  obtain w1 where a1: "applyBlock h b r hvn m w0 = (Inr (), w1)" by blast
  have st1: "driver_step h (NextBlock b r hvn m) (0, w0) (Suc 0, w1)"
    by (rule driver_step.block_applied [OF num a1])
  from assms(5) have pos: "0 < blockNumber (blockInfo b)" by simp
  from rollback_genesis_one_block [OF assms(1-3) pos a1] obtain w2
    where rb: "rollbackTo h 0 w1 = (Inr (), w2)" and sch2: "schemas w2 = schemas w0" by blast
  from sch2 assms(2) have tb2: "schemas w2 ?s = Some tb0" by simp
  from loadIndexState_absent [OF tb2] assms(4)
  have l2: "loadIndexState h w2 = (Inr (to_MigrationIndexState defaultIndexState), w2)" by simp
  have "driver_step h (ForkAt 0) (Suc 0, w1) (mi_blockNumber (to_MigrationIndexState defaultIndexState), w2)"
    by (rule driver_step.rolled_back [OF _ rb l2]) simp
  then have st2: "driver_step h (ForkAt 0) (Suc 0, w1) (0, w2)"
    by (simp add: defaultIndexState_def to_MigrationIndexState_def)
  from st1 st2 have "driver_run h [NextBlock b r hvn m, ForkAt 0] (0, w0) (0, w2)"
    by (blast intro: driver_run.intros)
  from driver_run_inv [OF this inv0] have inv2: "driver_inv h (0, w2)" .
  from assms(8) obtain ws' where "m' (next_txid w2) (rows tb0) = Inr ws'" by blast
  from driver_inv_progress [where mutate = m' and isReplay = r' and hvn = hvn', OF inv2 tb2 n0 num' this]
  obtain w3 where a3: "applyBlock h b' r' hvn' m' w2 = (Inr (), w3)" by blast
  have st3: "driver_step h (NextBlock b' r' hvn' m') (0, w2) (Suc 0, w3)"
    by (rule driver_step.block_applied [OF num' a3])
  from cursor_row_moved [OF assms(1-4) pos a1 rb a3] assms(6) obtain tb3 where
    tb3: "schemas w3 ?s = Some tb3" and one: "map_of (index_state tb3) 1 = None"
    and k: "1 \<in> set (map fst (block_number_txid tb3))"
    by auto
  have "driver_step h Restart (Suc 0, w3) (mi_blockNumber (to_MigrationIndexState defaultIndexState), w3)"
    by (rule driver_step.restarted [OF loadIndexState_absent [OF tb3 one]])
  then have st4: "driver_step h Restart (Suc 0, w3) (0, w3)"
    by (simp add: defaultIndexState_def to_MigrationIndexState_def)
  from st1 st2 st3 st4 have run: "driver_run h [NextBlock b r hvn m, ForkAt 0, NextBlock b' r' hvn' m', Restart]
      (0, w0) (0, w3)"
    by (blast intro: driver_run.intros)
  from driver_run_inv [OF run inv0] have "wf_world w3" by simp
  with run tb3 one k show ?thesis by blast
qed
theorem driver_reaches_lost_cursor_witness:
  "\<exists>w'. driver_run public_handler lost_cursor_events (0, fresh_world) (0, w') \<and> wf_world w'
     \<and> (\<exists>tb. schemas w' (dbSchema public_handler) = Some tb
          \<and> map_of (index_state tb) 1 = None \<and> 1 \<in> set (map fst (block_number_txid tb)))"
proof -
  have e: "blockNumber (blockInfo (demo_block 1 ''a'')) = 1"
    and f: "blockNumber (blockInfo (demo_block 1 ''b'')) = 1"
    and g: "\<forall>t rs. \<exists>ws. put_row 1 t rs = Inr ws"
    by (simp_all add: eval_defs)
  show ?thesis using driver_reaches_lost_cursor [OF fresh_start e f g g] .
qed

theorem driver_stuck_after_cursor_loss_witness:
  "driver_run public_handler [NextBlock (demo_block 1 ''c'') False ''v1'' (put_row 1)] (0, lost_cursor)
     (0, snd (applyBlock public_handler (demo_block 1 ''c'') False ''v1'' (put_row 1) lost_cursor))
   \<and> schemas (snd (applyBlock public_handler (demo_block 1 ''c'') False ''v1'' (put_row 1) lost_cursor))
     = schemas lost_cursor"
proof -
  let ?w' = "snd (applyBlock public_handler (demo_block 1 ''c'') False ''v1'' (put_row 1) lost_cursor)"
  have a: "applyBlock public_handler (demo_block 1 ''c'') False ''v1'' (put_row 1) lost_cursor =
      (Inl (UniqueViolation ''_block_number_txid'' 1), ?w')"
    and n: "blockNumber (blockInfo (demo_block 1 ''c'')) = Suc 0"
    by (simp_all add: eval_defs)
  have run: "driver_run public_handler [NextBlock (demo_block 1 ''c'') False ''v1'' (put_row 1)]
      (0, lost_cursor) (0, ?w')"
    by (rule driver_run.run_cons [OF driver_step.block_failed [OF n a] driver_run.run_nil])
  have wf: "wf_world lost_cursor"
    and tb: "schemas lost_cursor (dbSchema public_handler) = Some (the (schemas lost_cursor ''public''))"
    and one: "map_of (index_state (the (schemas lost_cursor ''public''))) 1 = None"
    and key: "1 \<in> set (map fst (block_number_txid (the (schemas lost_cursor ''public''))))"
    by (simp_all add: eval_defs)
  from run driver_stuck_after_cursor_loss [OF wf tb one key run] show ?thesis by simp
qed



theorem driver_run_contiguous_witness:
  "\<exists>tb. schemas two_by_driver ''public'' = Some tb \<and> map fst (block_number_txid tb) = [1, 2]"
proof -
  have p: "dbSchema public_handler = ''public''" by (simp add: eval_defs)
  note run = driver_run_two_blocks
  from driver_run_contiguous [OF fresh_start run] p obtain tb where
    t: "schemas two_by_driver ''public'' = Some tb"
    and k: "map fst (block_number_txid tb) = [1..<Suc (length (block_number_txid tb))]"
    and l: "Suc (Suc 0) = length (block_number_txid tb) \<or> Suc (Suc 0) = 0"
    by auto
  from l have l2: "length (block_number_txid tb) = 2" by simp
  from k have "map fst (block_number_txid tb) = [1, 2]" by (simp only: l2) (simp add: upt_rec)
  with t show ?thesis by (intro exI [of _ tb] conjI)
qed

theorem driver_rollback_succeeds_witness:
  "\<exists>w' tb'. rollbackTo public_handler 0 two_by_driver = (Inr (), w')
     \<and> schemas w' ''public'' = Some tb' \<and> block_number_txid tb' = []"
proof -
  have p: "dbSchema public_handler = ''public''" by (simp add: eval_defs)
  note run = driver_run_two_blocks
  have m: "0 < Suc (Suc 0)" by simp
  from driver_rollback_succeeds [OF fresh_start run m] p show ?thesis by auto
qed


theorem driver_refines_keys_spec_witness:
  "keys_step (bnt_keys public_handler one_applied) (bnt_keys public_handler two_by_driver)
   \<and> bnt_keys public_handler one_applied = [1] \<and> bnt_keys public_handler two_by_driver = [1, 2]"
proof -
  from driver_step_block_a have run: "driver_run public_handler [NextBlock (demo_block 1 ''a'') False ''v1'' (put_row 1)]
      (0, fresh_world) (Suc 0, one_applied)"
    by (blast intro: driver_run.intros)
  from driver_refines_keys_spec [OF fresh_start run driver_step_block_b]
  have "keys_step (bnt_keys public_handler one_applied) (bnt_keys public_handler two_by_driver)" by simp
  moreover have "bnt_keys public_handler one_applied = [1]" and "bnt_keys public_handler two_by_driver = [1, 2]"
    by (simp_all add: eval_defs bnt_keys_def)
  ultimately show ?thesis by blast
qed


theorem rollbackTo_partial_failure_witness:
  "rollbackTo public_handler 0 conflict_world =
     (Inl (UniqueViolation ''_index_state'' 1), snd (rollbackTo public_handler 0 conflict_world))
   \<and> schemas (snd (rollbackTo public_handler 0 conflict_world)) = schemas conflict_world
   \<and> console (snd (rollbackTo public_handler 0 conflict_world)) = [RollingBack 1]"
proof -
  let ?w' = "snd (rollbackTo public_handler 0 conflict_world)"
  have a: "wf_world conflict_world"
    and b: "schemas conflict_world (dbSchema public_handler) = Some (the (schemas conflict_world ''public''))"
    and c: "rollbackTo public_handler 0 conflict_world = (Inl (UniqueViolation ''_index_state'' 1), ?w')"
    and q: "rows_above_desc 0 (block_number_txid (the (schemas conflict_world ''public''))) = [(1, 7)]"
    by (simp_all add: eval_defs)
  from rollbackTo_partial_failure [OF a b c] q obtain ps x qs wm where
    split: "[(1, 7)] = ps @ x # qs" and loop: "rollback_loop ps conflict_world = (Inr (), wm)"
    and "schemas ?w' = schemas wm" "console ?w' = console wm @ [RollingBack (fst x)]"
    by auto
  moreover from split have "ps = []" "x = (1, 7)" by (cases ps; simp)+
  moreover from loop \<open>ps = []\<close> have "wm = conflict_world" by simp
  ultimately show ?thesis using c by (simp add: conflict_world_def)
qed


theorem getBlock_find_block_witness:
  "getBlock demo_reader 2 = find_block (blockchain demo_reader) 2
   \<and> getBlock demo_reader 5 = find_block (blockchain demo_reader) 5
   \<and> find_block (blockchain demo_reader) 5 = Inl (BlockMissing 5)"
proof -
  have a: "numbered (blockchain demo_reader)" by (simp add: eval_defs)
  have "getBlock demo_reader 2 = find_block (blockchain demo_reader) 2"
    and "getBlock demo_reader 5 = find_block (blockchain demo_reader) 5"
    by (rule getBlock_find_block [OF a])+
  moreover have "find_block (blockchain demo_reader) 5 = Inl (BlockMissing 5)" by (simp add: eval_defs)
  ultimately show ?thesis by blast
qed

theorem driver_progress_witness:
  "\<exists>w'. driver_step public_handler (NextBlock (demo_block 1 ''b'') False ''v1'' (put_row 1))
     (0, rolled_to_genesis) (Suc 0, w')"
proof -
  from driver_step_block_a driver_step_fork_genesis have run: "driver_run public_handler
      [NextBlock (demo_block 1 ''a'') False ''v1'' (put_row 1), ForkAt 0] (0, fresh_world) (0, rolled_to_genesis)"
    by (blast intro: driver_run.intros)
  let ?tb = "the (schemas rolled_to_genesis ''public'')"
  have t: "schemas rolled_to_genesis (dbSchema public_handler) = Some ?tb"
    and l: "0 = length (block_number_txid ?tb)"
    and n: "blockNumber (blockInfo (demo_block 1 ''b'')) = Suc 0"
    and m: "put_row 1 (next_txid rolled_to_genesis) (rows ?tb) = Inr [(1, Some (next_txid rolled_to_genesis))]"
    by (simp_all add: eval_defs)
  from driver_progress [where mutate = "put_row 1", OF fresh_start run t l n m] show ?thesis .
qed


theorem rollbackTo_isolated_rollbacks_witness:
  "\<exists>w2. rollbackTo public_handler 0 interleaved_rollback = (Inr (), w2)
     \<and> schemas w2 ''public'' = Some fresh_tables
     \<and> schemas w2 ''other'' = schemas interleaved_rollback ''other''"
proof -
  have a: "wf_world two_schema_world" and r: "rows_own two_schema_world"
    and b: "schemas two_schema_world (dbSchema public_handler) = Some fresh_tables"
    and c: "\<forall>b \<in> set (map fst (block_number_txid fresh_tables)). b \<le> 0"
    and d: "run_ops interleaved_rollback_ops two_schema_world = (Inr (), interleaved_rollback)"
    and e: "\<forall>eo \<in> set interleaved_rollback_ops. op_schema eo = dbSchema public_handler \<longrightarrow> is_apply eo"
    and f: "sorted_wrt (<) (map op_block_number
              (filter (\<lambda>eo. op_schema eo = dbSchema public_handler) interleaved_rollback_ops))"
    and g: "\<forall>eo \<in> set interleaved_rollback_ops. op_schema eo = dbSchema public_handler \<longrightarrow> 0 < op_block_number eo"
    and o: "''other'' \<noteq> dbSchema public_handler" and p: "dbSchema public_handler = ''public''"
    by (simp_all add: eval_defs rows_own_def)
  from rollbackTo_isolated_rollbacks [OF a r b c d e f g] o p b show ?thesis by auto
qed


theorem driver_bounds_witness:
  "\<exists>tb. schemas two_by_driver (dbSchema public_handler) = Some tb
     \<and> Suc (Suc 0) \<le> length (block_number_txid tb)
     \<and> (\<forall>i \<in> set (map fst (index_state tb)). i \<le> id_seq two_by_driver (dbSchema public_handler))
     \<and> length (index_state tb) \<le> Suc (id_seq two_by_driver (dbSchema public_handler))"
  using driver_bounds [OF fresh_start driver_run_two_blocks] .


theorem driver_undo_order_witness:
  "\<exists>tb. schemas two_by_driver (dbSchema public_handler) = Some tb
     \<and> (\<forall>m. sorted_wrt (>) (map snd (rows_above_desc m (block_number_txid tb))))"
  using driver_undo_order [OF fresh_start driver_run_two_blocks] .

theorem catch_up_reaches_head_witness:
  "\<exists>w'. catch_up public_handler demo_reader demo_updaters ''v1'' (0, fresh_world) = (Inr (), (2, w'))"
proof -
  have k: "0 = length (block_number_txid fresh_tables)"
    and n: "numbered (blockchain demo_reader)" and ne: "blockchain demo_reader \<noteq> []"
    and u: "\<forall>b t rs. \<exists>ws. demo_updaters b t rs = Inr ws"
    and l: "max 0 (length (blockchain demo_reader)) = 2"
    by (simp_all add: eval_defs)
  from catch_up_reaches_head [OF fresh_start driver_run.run_nil fresh_start(2) k n ne u, of "''v1''"] l
  show ?thesis by simp
qed


text \<open>C28 (finding, seen from the test harness): on a well-formed database that records
  block 1, a driver at block 0 (where a restart after the lost cursor puts it, C16) fed
  by any reader over a non-empty, well-numbered chain stops at once: the first block it
  reads is block 1, whose insert into \<open>_block_number_txid\<close> collides, and the loop returns
  that error with the driver still at block 0 and no table changed, so the reader's
  blocks are never applied.\<close>

theorem catch_up_stuck_after_cursor_loss:
  assumes "wf_world w" and "schemas w (dbSchema h) = Some tb"
    and "1 \<in> set (map fst (block_number_txid tb))"
    and "numbered (blockchain r)" and "blockchain r \<noteq> []"
  shows "\<exists>e w'. catch_up h r updaters hvn (0, w) = (Inl (ApplyError e), (0, w')) \<and> schemas w' = schemas w"
proof -
  let ?b = "blockchain r ! 0"
  from numbered_head [OF assms(4,5)] have head: "getHeadBlockNumber r = Inr (length (blockchain r))" .
  from assms(5) have len: "\<not> length (blockchain r) \<le> 0" by simp
  from numbered_getBlock [OF assms(4), of 1] len have gb: "getBlock r (int (Suc 0)) = Inr ?b" by simp
  from getBlock_Inr_number [OF gb] have num: "blockNumber (blockInfo ?b) = 1" by simp
  obtain res w' where a: "applyBlock h ?b False hvn (updaters ?b) w = (res, w')" by fastforce
  obtain e where res: "res = Inl e"
  proof (cases res)
    case (Inr u)
    with a have "applyBlock h ?b False hvn (updaters ?b) w = (Inr (), w')" by simp
    from applyBlock_Inr_new_key [OF assms(1) this assms(2)] num assms(3) show ?thesis by simp
  qed
  from a res have "schemas w' = schemas w" by (auto simp: applyBlock_eq dest: with_transaction_Inl)
  moreover from head len gb a res have "catch_up h r updaters hvn (0, w) = (Inl (ApplyError e), (0, w'))"
    by (simp add: catch_up.simps [of h r updaters hvn 0 w])
  ultimately show ?thesis by blast
qed
theorem catch_up_stuck_after_cursor_loss_witness:
  "\<exists>e w'. catch_up public_handler demo_reader demo_updaters ''v1'' (0, lost_cursor) = (Inl (ApplyError e), (0, w'))
     \<and> schemas w' = schemas lost_cursor"
proof -
  have a: "wf_world lost_cursor"
    and b: "schemas lost_cursor (dbSchema public_handler) = Some (the (schemas lost_cursor ''public''))"
    and c: "1 \<in> set (map fst (block_number_txid (the (schemas lost_cursor ''public''))))"
    and n: "numbered (blockchain demo_reader)" and ne: "blockchain demo_reader \<noteq> []"
    by (simp_all add: eval_defs)
  show ?thesis using catch_up_stuck_after_cursor_loss [OF a b c n ne] .
qed

end
